theory Spec2Isabelle
  imports Main "HOL-Library.Word" "HOL-Library.Char_ord" "HOL-Library.List_Lexorder"
    "HOL-Library.Monad_Syntax"
begin

section \<open>Data model of \<open>pkg/util/tracing/tracingui/span_registry_ui.go\<close>\<close>

text \<open>
  The input types \<open>tracingpb.RecordedSpan\<close> and \<open>tracing.SpansSnapshot\<close> are declared
  outside the file under verification; only the fields that the file reads are modelled.
  Their field names carry a prefix, since the names without prefix belong to the types
  that the file declares itself. Go strings are byte sequences, so they are \<open>string\<close>;
  \<open>uint64\<close> is \<open>64 word\<close>; \<open>time.Time\<close> is opaque to the file and modelled as \<open>int\<close>;
  a Go map is a partial function, and indexing a map at a missing key yields the zero
  value of the value type.
\<close>

record RecordedSpan =
  rs_Operation :: string
  rs_TraceID :: "64 word"
  rs_SpanID :: "64 word"
  rs_ParentSpanID :: "64 word"
  rs_StartTime :: int
  rs_GoroutineID :: "64 word"
  rs_Tags :: "string \<rightharpoonup> string"

record SpansSnapshot =
  snap_Traces :: "RecordedSpan list list"
  snap_Stacks :: "int \<rightharpoonup> string"

text \<open>\<open>m[k]\<close> on a \<open>map[string]string\<close>: the empty string when the key is missing.\<close>

definition tagIndex :: "(string \<rightharpoonup> string) \<Rightarrow> string \<Rightarrow> string" where
  "tagIndex m k = (case m k of None \<Rightarrow> [] | Some v \<Rightarrow> v)"

record ProcessedTag =
  Key :: string
  Val :: string
  Caption :: string
  Link :: string
  Hidden :: bool
  Highlight :: bool
  Inherit :: bool
  Inherited :: bool
  PropagateUp :: bool
  CopiedFromChild :: bool

record processedSpan =
  Operation :: string
  TraceID :: "64 word"
  SpanID :: "64 word"
  ParentSpanID :: "64 word"
  Start :: int
  GoroutineID :: "64 word"
  Tags :: "ProcessedTag list"

record ProcessedSnapshot =
  Spans :: "processedSpan list"
  Stacks :: "int \<rightharpoonup> string"

record txnState =
  found :: bool
  curQuery :: string

text \<open>
  The two ways in which the Go runtime ends a call of the file: the panic of the slice
  expression \<open>v[:8]\<close> in \<open>processTag\<close>, and the fatal error \<open>stack overflow\<close> when the
  recursion of \<open>propagateInheritTagDownwards\<close> is deeper than the stack of the goroutine
  admits.
\<close>

datatype error = SliceBoundsOutOfRange | StackOverflow

definition hiddenTags :: "string set" where
  "hiddenTags = {''_unfinished'', ''_verbose'', ''_dropped'', ''node'', ''store''}"

section \<open>The transaction lock resolver: \<open>findTxnState\<close>\<close>

text \<open>The inner loop \<open>for _, s2 := range t\<close>, and the \<open>return txnState{found: true}\<close> after it.\<close>

fun findQuery :: "RecordedSpan list \<Rightarrow> txnState" where
  "findQuery [] = \<lparr>found = True, curQuery = []\<rparr>"
| "findQuery (s2 # rest) =
     (if rs_Operation s2 = ''sql query''
      then \<lparr>found = True, curQuery = tagIndex (rs_Tags s2) ''statement''\<rparr>
      else findQuery rest)"

text \<open>
  The loop \<open>for _, s := range t\<close> over the spans of one trace \<open>t\<close>; \<open>None\<close> when the loop
  ends without returning.
\<close>

fun findTxnInTrace :: "string \<Rightarrow> RecordedSpan list \<Rightarrow> RecordedSpan list \<Rightarrow> txnState option" where
  "findTxnInTrace txnID t [] = None"
| "findTxnInTrace txnID t (s # rest) =
     (if rs_Operation s \<noteq> ''sql txn'' \<or> tagIndex (rs_Tags s) ''txn'' \<noteq> txnID
      then findTxnInTrace txnID t rest
      else Some (findQuery t))"

text \<open>The outer loop \<open>for _, t := range snap.Traces\<close> and the final \<open>return\<close>.\<close>

fun findTxnTraces :: "string \<Rightarrow> RecordedSpan list list \<Rightarrow> txnState" where
  "findTxnTraces txnID [] = \<lparr>found = False, curQuery = []\<rparr>"
| "findTxnTraces txnID (t # ts) =
     (case findTxnInTrace txnID t t of
        Some st \<Rightarrow> st
      | None \<Rightarrow> findTxnTraces txnID ts)"

definition findTxnState :: "string \<Rightarrow> SpansSnapshot \<Rightarrow> txnState" where
  "findTxnState txnID snap = findTxnTraces txnID (snap_Traces snap)"

section \<open>Tag enrichment: \<open>processTag\<close> and \<open>processSpan\<close>\<close>

definition processTag :: "string \<Rightarrow> string \<Rightarrow> SpansSnapshot \<Rightarrow> error + ProcessedTag" where
  "processTag k v snap =
     (let p = \<lparr>Key = k, Val = v, Caption = [], Link = [], Hidden = (k \<in> hiddenTags),
               Highlight = False, Inherit = False, Inherited = False,
               PropagateUp = False, CopiedFromChild = False\<rparr>
      in if k = ''lock_holder_txn'' then
           (let txnID = v in
            if length v < 8 then Inl SliceBoundsOutOfRange
            else
              (let txnIDShort = take 8 v;
                   p = p\<lparr>Val := txnIDShort, PropagateUp := True, Highlight := True,
                         Link := txnIDShort\<rparr>;
                   st = findTxnState txnID snap
               in if \<not> found st then
                    Inr (p\<lparr>Caption := ''blocked on unknown transaction''\<rparr>)
                  else if curQuery st \<noteq> [] then
                    Inr (p\<lparr>Caption := ''blocked on txn currently running query: '' @ curQuery st\<rparr>)
                  else
                    Inr (p\<lparr>Caption := ''blocked on idle txn''\<rparr>)))
         else if k = ''statement'' then
           Inr (p\<lparr>Inherit := True, PropagateUp := True\<rparr>)
         else Inr p)"

text \<open>
  The loop \<open>for i, k := range tagKeys { p.Tags[i] = processTag(k, s.Tags[k], snap) }\<close>;
  it stops at the first panic.
\<close>

fun processTags :: "string list \<Rightarrow> (string \<rightharpoonup> string) \<Rightarrow> SpansSnapshot \<Rightarrow> error + ProcessedTag list" where
  "processTags [] m snap = Inr []"
| "processTags (k # ks) m snap =
     (case processTag k (tagIndex m k) snap of
        Inl e \<Rightarrow> Inl e
      | Inr p \<Rightarrow> (case processTags ks m snap of
                   Inl e \<Rightarrow> Inl e
                 | Inr ps \<Rightarrow> Inr (p # ps)))"

text \<open>
  \<open>for k := range s.Tags\<close> yields the keys of the map in an order that the Go runtime
  chooses afresh for each loop. The order is the argument \<open>ks\<close>: a list without
  repetitions of the keys of \<open>s.Tags\<close>. \<open>sort.Strings\<close> sorts byte-wise ascending, which is
  the order on \<open>string\<close> given by \<open>Char_ord\<close> and \<open>List_Lexorder\<close>.
\<close>

definition processSpan :: "string list \<Rightarrow> RecordedSpan \<Rightarrow> SpansSnapshot \<Rightarrow> error + processedSpan" where
  "processSpan ks s snap =
     (let p = \<lparr>Operation = rs_Operation s, TraceID = rs_TraceID s, SpanID = rs_SpanID s,
               ParentSpanID = rs_ParentSpanID s, Start = rs_StartTime s,
               GoroutineID = rs_GoroutineID s, Tags = []\<rparr>;
          tagKeys = sort ks
      in case processTags tagKeys (rs_Tags s) snap of
           Inl e \<Rightarrow> Inl e
         | Inr ts \<Rightarrow> Inr (p\<lparr>Tags := ts\<rparr>))"

section \<open>Tag propagation\<close>

text \<open>
  The slice \<open>processedSpans\<close> is the table \<open>tbl\<close>; a pointer \<open>&processedSpans[i]\<close> is the
  index \<open>i\<close>. \<open>spansMap\<close> maps a span id to such a pointer, \<open>childrenMap\<close> a parent id to
  a slice of such pointers. \<open>p.Tags = append(p.Tags, tag)\<close> through a pointer updates the
  table in place. The pointers that the first loop stores are positions of the table
  (\<open>buildIndex_spansMap_range\<close>, \<open>buildIndex_children\<close> below), so no access through one
  of them is out of range.
\<close>

definition appendTag :: "nat \<Rightarrow> ProcessedTag \<Rightarrow> processedSpan list \<Rightarrow> processedSpan list" where
  "appendTag p tag tbl = tbl[p := (tbl ! p)\<lparr>Tags := Tags (tbl ! p) @ [tag]\<rparr>]"

text \<open>
  The loop \<open>for { ... }\<close> of \<open>propagateTagUpwards\<close>. It has no exit other than a parent id
  that is missing from \<open>spans\<close>, and so it may run forever: \<open>None\<close> is the run that does
  not return (the program appends until its memory is exhausted).
\<close>

partial_function (option) upwardsLoop ::
  "ProcessedTag \<Rightarrow> 64 word \<Rightarrow> (64 word \<rightharpoonup> nat) \<Rightarrow> processedSpan list \<Rightarrow> processedSpan list option" where
  [code]: "upwardsLoop tag parentID spans tbl =
     (case spans parentID of
        None \<Rightarrow> Some tbl
      | Some p \<Rightarrow>
          (let tbl' = appendTag p tag tbl
           in upwardsLoop tag (ParentSpanID (tbl' ! p)) spans tbl'))"

definition propagateTagUpwards ::
  "ProcessedTag \<Rightarrow> processedSpan \<Rightarrow> (64 word \<rightharpoonup> nat) \<Rightarrow> processedSpan list \<Rightarrow> processedSpan list option" where
  "propagateTagUpwards tag sp spans tbl =
     (let tag = tag\<lparr>CopiedFromChild := True, Inherit := False\<rparr>;
          parentID = ParentSpanID sp
      in upwardsLoop tag parentID spans tbl)"

text \<open>
  \<open>propagateInheritTagDownwards\<close> rewrites the flags of its tag and then loops over
  \<open>children[sp.SpanID]\<close> (nothing when the key is missing), calling itself on each child.
  The source puts no bound on the depth of this recursion; the bound is that of the Go
  runtime, which gives every nested call a frame on the stack of the goroutine and ends
  the program with \<open>fatal error: stack overflow\<close> when the stack would grow beyond its
  maximum size. \<open>depth\<close> is the number of nested calls of the function that the stack
  still admits.

  \<open>downwardsLoop\<close> is the loop over the remaining children \<open>cs\<close> inside one call, with the
  recursive call unfolded into the test for a free frame, the flag rewrite and the loop
  of the child.
\<close>

definition inheritFlags :: "ProcessedTag \<Rightarrow> ProcessedTag" where
  "inheritFlags tag = tag\<lparr>PropagateUp := False, Inherited := True, Hidden := True\<rparr>"

definition childrenOf :: "(64 word \<rightharpoonup> nat list) \<Rightarrow> 64 word \<Rightarrow> nat list" where
  "childrenOf children k = (case children k of None \<Rightarrow> [] | Some cs \<Rightarrow> cs)"

fun downwardsLoop ::
  "nat \<Rightarrow> ProcessedTag \<Rightarrow> nat list \<Rightarrow> (64 word \<rightharpoonup> nat list) \<Rightarrow> processedSpan list
     \<Rightarrow> error + processedSpan list" where
  "downwardsLoop depth tag [] children tbl = Inr tbl"
| "downwardsLoop depth tag (child # rest) children tbl =
     (if depth = 0 then Inl StackOverflow
      else
        (case downwardsLoop (depth - 1) (inheritFlags tag)
                (childrenOf children (SpanID (appendTag child tag tbl ! child))) children
                (appendTag child tag tbl) of
           Inl e \<Rightarrow> Inl e
         | Inr tbl' \<Rightarrow> downwardsLoop depth tag rest children tbl'))"

definition propagateInheritTagDownwards ::
  "nat \<Rightarrow> ProcessedTag \<Rightarrow> processedSpan \<Rightarrow> (64 word \<rightharpoonup> nat list) \<Rightarrow> processedSpan list
     \<Rightarrow> error + processedSpan list" where
  "propagateInheritTagDownwards depth tag sp children tbl =
     (if depth = 0 then Inl StackOverflow
      else downwardsLoop (depth - 1) (inheritFlags tag) (childrenOf children (SpanID sp))
             children tbl)"

section \<open>\<open>ProcessSnapshot\<close>\<close>

record index =
  processedSpans :: "processedSpan list"
  spansMap :: "64 word \<rightharpoonup> nat"
  childrenMap :: "64 word \<rightharpoonup> nat list"

text \<open>
  The zero value of \<open>processedSpan\<close>, with which \<open>make([]processedSpan, len(spans))\<close>
  fills the table.
\<close>

definition zeroSpan :: processedSpan where
  "zeroSpan = \<lparr>Operation = [], TraceID = 0, SpanID = 0, ParentSpanID = 0, Start = 0,
               GoroutineID = 0, Tags = []\<rparr>"

text \<open>
  The first loop, \<open>for i, s := range spans\<close>, from index \<open>i\<close> on. \<open>tagOrder i\<close> is the order
  in which the map \<open>s.Tags\<close> of the \<open>i\<close>-th span is ranged over.
\<close>

fun indexSpans ::
  "(nat \<Rightarrow> string list) \<Rightarrow> SpansSnapshot \<Rightarrow> nat \<Rightarrow> RecordedSpan list \<Rightarrow> index \<Rightarrow> error + index" where
  "indexSpans tagOrder snapshot i [] ix = Inr ix"
| "indexSpans tagOrder snapshot i (s # rest) ix =
     (case processSpan (tagOrder i) s snapshot of
        Inl e \<Rightarrow> Inl e
      | Inr p \<Rightarrow>
          indexSpans tagOrder snapshot (Suc i) rest
            (ix\<lparr>processedSpans := (processedSpans ix)[i := p],
                spansMap := (spansMap ix)(SpanID p \<mapsto> i),
                childrenMap :=
                  (case childrenMap ix (ParentSpanID p) of
                     None \<Rightarrow> (childrenMap ix)(ParentSpanID p \<mapsto> [i])
                   | Some cs \<Rightarrow> (childrenMap ix)(ParentSpanID p \<mapsto> cs @ [i]))\<rparr>))"

text \<open>
  The pass \<open>// Propagate tags up\<close>. \<open>upTags\<close> is the inner loop over \<open>s.Tags\<close>, where \<open>s\<close> is
  the copy of the table entry that \<open>range\<close> made when the iteration of the outer loop
  began: tags appended to the entry later are not ranged over.
\<close>

fun upTags ::
  "ProcessedTag list \<Rightarrow> processedSpan \<Rightarrow> (64 word \<rightharpoonup> nat) \<Rightarrow> processedSpan list \<Rightarrow> processedSpan list option" where
  "upTags [] s spans tbl = Some tbl"
| "upTags (t # ts) s spans tbl =
     (if \<not> PropagateUp t \<or> CopiedFromChild t then upTags ts s spans tbl
      else propagateTagUpwards t s spans tbl \<bind> upTags ts s spans)"

fun upSpans ::
  "nat list \<Rightarrow> (64 word \<rightharpoonup> nat) \<Rightarrow> processedSpan list \<Rightarrow> processedSpan list option" where
  "upSpans [] spans tbl = Some tbl"
| "upSpans (i # is) spans tbl =
     (let s = tbl ! i in upTags (Tags s) s spans tbl \<bind> upSpans is spans)"

text \<open>
  The pass \<open>// Propagate tags down\<close>, in the same way; \<open>depth\<close> is the number of nested
  calls of \<open>propagateInheritTagDownwards\<close> that the stack admits at the calls of the pass.
\<close>

fun downTags ::
  "nat \<Rightarrow> ProcessedTag list \<Rightarrow> processedSpan \<Rightarrow> (64 word \<rightharpoonup> nat list) \<Rightarrow> processedSpan list
     \<Rightarrow> error + processedSpan list" where
  "downTags depth [] s children tbl = Inr tbl"
| "downTags depth (t # ts) s children tbl =
     (if \<not> Inherit t \<or> Inherited t then downTags depth ts s children tbl
      else
        (case propagateInheritTagDownwards depth t s children tbl of
           Inl e \<Rightarrow> Inl e
         | Inr tbl' \<Rightarrow> downTags depth ts s children tbl'))"

fun downSpans ::
  "nat \<Rightarrow> nat list \<Rightarrow> (64 word \<rightharpoonup> nat list) \<Rightarrow> processedSpan list
     \<Rightarrow> error + processedSpan list" where
  "downSpans depth [] children tbl = Inr tbl"
| "downSpans depth (i # is) children tbl =
     (case downTags depth (Tags (tbl ! i)) (tbl ! i) children tbl of
        Inl e \<Rightarrow> Inl e
      | Inr tbl' \<Rightarrow> downSpans depth is children tbl')"

text \<open>
  The copy of the stack traces, \<open>for k, v := range snapshot.Stacks { stacks[k] = v }\<close>,
  over the keys in the order \<open>ks\<close> that the runtime chose.
\<close>

fun copyStacks :: "int list \<Rightarrow> (int \<rightharpoonup> string) \<Rightarrow> (int \<rightharpoonup> string) \<Rightarrow> (int \<rightharpoonup> string)" where
  "copyStacks [] src stacks = stacks"
| "copyStacks (k # ks) src stacks =
     copyStacks ks src (case src k of None \<Rightarrow> stacks | Some v \<Rightarrow> stacks(k \<mapsto> v))"

definition notFound :: string where
  "notFound = ''Goroutine not found. Goroutine must have finished since the span was created.''"

text \<open>
  The loop that fills in the missing stack traces. \<open>int(s.GoroutineID)\<close> converts a
  \<open>uint64\<close> to \<open>int\<close>, which has 64 bits on the platforms the repository builds for: the
  same bits, read as a signed number.
\<close>

fun fillStacks :: "RecordedSpan list \<Rightarrow> (int \<rightharpoonup> string) \<Rightarrow> (int \<rightharpoonup> string)" where
  "fillStacks [] stacks = stacks"
| "fillStacks (s # rest) stacks =
     (let gid = sint (rs_GoroutineID s)
      in fillStacks rest (case stacks gid of None \<Rightarrow> stacks(gid \<mapsto> notFound) | Some _ \<Rightarrow> stacks))"

text \<open>
  The order in which the runtime ranges over the maps of one call: \<open>tagOrder i\<close> for the
  tags of the \<open>i\<close>-th span of the flattened snapshot, \<open>stackOrder\<close> for \<open>snapshot.Stacks\<close>.
\<close>

record mapOrder =
  tagOrder :: "nat \<Rightarrow> string list"
  stackOrder :: "int list"

text \<open>
  The three \<open>make\<close> calls and the first loop: the table filled with zero values, the two
  empty maps, and the loop from index 0 over the flattened spans.
\<close>

definition buildIndex :: "mapOrder \<Rightarrow> SpansSnapshot \<Rightarrow> error + index" where
  "buildIndex ord snapshot =
     (let spans = concat (snap_Traces snapshot)
      in indexSpans (tagOrder ord) snapshot 0 spans
           \<lparr>processedSpans = replicate (length spans) zeroSpan,
            spansMap = Map.empty, childrenMap = Map.empty\<rparr>)"

text \<open>
  The result of a call: \<open>None\<close> when the call does not return, \<open>Some (Inl e)\<close> when the
  runtime ends it with \<open>e\<close>, \<open>Some (Inr out)\<close> when it returns \<open>out\<close>. \<open>depth\<close> is the number
  of nested calls of \<open>propagateInheritTagDownwards\<close> that the stack of the calling
  goroutine admits.
\<close>

definition ProcessSnapshot ::
  "mapOrder \<Rightarrow> nat \<Rightarrow> SpansSnapshot \<Rightarrow> (error + ProcessedSnapshot) option" where
  "ProcessSnapshot ord depth snapshot =
     (let spans = concat (snap_Traces snapshot)
      in case buildIndex ord snapshot of
           Inl e \<Rightarrow> Some (Inl e)
         | Inr ix \<Rightarrow>
             (case upSpans [0..<length (processedSpans ix)] (spansMap ix) (processedSpans ix) of
                None \<Rightarrow> None
              | Some tbl \<Rightarrow>
                  (case downSpans depth [0..<length tbl] (childrenMap ix) tbl of
                     Inl e \<Rightarrow> Some (Inl e)
                   | Inr tbl' \<Rightarrow>
                       Some (Inr \<lparr>Spans = tbl',
                                  Stacks = fillStacks spans
                                             (copyStacks (stackOrder ord) (snap_Stacks snapshot)
                                                Map.empty)\<rparr>))))"

section \<open>Notions used to state the properties\<close>

text \<open>
  \<open>extends tbl tbl' f\<close>: the table \<open>tbl'\<close> is \<open>tbl\<close> with the tags \<open>f j\<close> appended to the
  tag list of entry \<open>j\<close>, and nothing else changed.
\<close>

definition extends :: "processedSpan list \<Rightarrow> processedSpan list \<Rightarrow> (nat \<Rightarrow> ProcessedTag list) \<Rightarrow> bool" where
  "extends tbl tbl' f \<longleftrightarrow>
     length tbl' = length tbl \<and>
     (\<forall>j<length tbl. tbl' ! j = (tbl ! j)\<lparr>Tags := Tags (tbl ! j) @ f j\<rparr>)"

text \<open>
  The chain of ancestors that the upward walk follows: from a parent id through the
  span index \<open>spans\<close> to a table entry, from there to the parent id of that entry
  (\<open>parents\<close> lists the parent ids of the table entries), until a parent id is missing
  from the index.
\<close>

inductive chainFrom :: "(64 word \<rightharpoonup> nat) \<Rightarrow> 64 word list \<Rightarrow> 64 word \<Rightarrow> nat list \<Rightarrow> bool"
  for spans :: "64 word \<rightharpoonup> nat" and parents :: "64 word list" where
  chain_end: "spans parentID = None \<Longrightarrow> chainFrom spans parents parentID []"
| chain_step: "spans parentID = Some p \<Longrightarrow> chainFrom spans parents (parents ! p) ch
     \<Longrightarrow> chainFrom spans parents parentID (p # ch)"

text \<open>
  The order in which the downward recursion visits table entries: each child of the
  list in turn, and after each child the entries visited from the children of that
  child (\<open>ids\<close> lists the span ids of the table entries).
\<close>

inductive dfsFrom :: "(64 word \<rightharpoonup> nat list) \<Rightarrow> 64 word list \<Rightarrow> nat list \<Rightarrow> nat list \<Rightarrow> bool"
  for children :: "64 word \<rightharpoonup> nat list" and ids :: "64 word list" where
  dfs_done: "dfsFrom children ids [] []"
| dfs_child: "dfsFrom children ids (childrenOf children (ids ! c)) xs
     \<Longrightarrow> dfsFrom children ids rest ys
     \<Longrightarrow> dfsFrom children ids (c # rest) (c # xs @ ys)"

text \<open>The flag rewrite at the head of \<open>propagateTagUpwards\<close>.\<close>

definition upCopy :: "ProcessedTag \<Rightarrow> ProcessedTag" where
  "upCopy tag = tag\<lparr>CopiedFromChild := True, Inherit := False\<rparr>"

text \<open>
  The copies that entry \<open>j\<close> receives when, for each entry \<open>i\<close> of the list \<open>is\<close> in turn
  and each tag \<open>t\<close> of entry \<open>i\<close> selected by \<open>sel\<close> in turn, the copy \<open>cp t\<close> is appended
  once for each occurrence of \<open>j\<close> in \<open>targets i\<close>.
\<close>

definition copiesOver ::
  "nat list \<Rightarrow> (ProcessedTag \<Rightarrow> bool) \<Rightarrow> (ProcessedTag \<Rightarrow> ProcessedTag) \<Rightarrow> processedSpan list
     \<Rightarrow> (nat \<Rightarrow> nat list) \<Rightarrow> nat \<Rightarrow> ProcessedTag list" where
  "copiesOver is sel cp tbl targets j =
     concat (map (\<lambda>i. concat (map (\<lambda>t. replicate (count_list (targets i) j) (cp t))
                                 (filter sel (Tags (tbl ! i))))) is)"

text \<open>The tags that the two passes pick as sources: the tests before the two calls.\<close>

definition upSel :: "ProcessedTag \<Rightarrow> bool" where
  "upSel t \<longleftrightarrow> PropagateUp t \<and> \<not> CopiedFromChild t"

definition downSel :: "ProcessedTag \<Rightarrow> bool" where
  "downSel t \<longleftrightarrow> Inherit t \<and> \<not> Inherited t"

text \<open>
  The orders that the runtime can choose for a snapshot: each key of a map is yielded
  once.
\<close>

definition validOrder :: "mapOrder \<Rightarrow> SpansSnapshot \<Rightarrow> bool" where
  "validOrder ord snap \<longleftrightarrow>
     (\<forall>i<length (concat (snap_Traces snap)).
        distinct (tagOrder ord i) \<and>
        set (tagOrder ord i) = dom (rs_Tags (concat (snap_Traces snap) ! i)))
     \<and> distinct (stackOrder ord) \<and> set (stackOrder ord) = dom (snap_Stacks snap)"

text \<open>
  The spans that the lock resolver looks for: the span of the transaction \<open>t\<close>, which has
  the operation \<open>sql txn\<close> and the tag \<open>txn\<close> with value \<open>t\<close>, and a query span.
\<close>

definition isTxnSpan :: "string \<Rightarrow> RecordedSpan \<Rightarrow> bool" where
  "isTxnSpan t s \<longleftrightarrow> rs_Operation s = ''sql txn'' \<and> rs_Tags s ''txn'' = Some t"

definition isQuerySpan :: "RecordedSpan \<Rightarrow> bool" where
  "isQuerySpan s \<longleftrightarrow> rs_Operation s = ''sql query''"

text \<open>
  The parent relation that the parent ids of a snapshot declare, over the positions of
  the flattened snapshot: \<open>(i, j)\<close> when the parent id of span \<open>i\<close> is the span id of
  span \<open>j\<close>.
\<close>

definition parentRel :: "SpansSnapshot \<Rightarrow> (nat \<times> nat) set" where
  "parentRel snap =
     {(i, j). i < length (concat (snap_Traces snap)) \<and> j < length (concat (snap_Traces snap))
        \<and> rs_ParentSpanID (concat (snap_Traces snap) ! i) = rs_SpanID (concat (snap_Traces snap) ! j)}"

text \<open>
  The transitive descendants of the span at position \<open>i\<close> of a table, by the parent ids:
  the spans whose parent id is the span id of \<open>i\<close>, and the spans whose parent id is the
  span id of a descendant.
\<close>

inductive descendantOf :: "processedSpan list \<Rightarrow> nat \<Rightarrow> nat \<Rightarrow> bool"
  for tbl :: "processedSpan list" and i :: nat where
  desc_child: "j < length tbl \<Longrightarrow> ParentSpanID (tbl ! j) = SpanID (tbl ! i)
     \<Longrightarrow> descendantOf tbl i j"
| desc_step: "descendantOf tbl i k \<Longrightarrow> j < length tbl
     \<Longrightarrow> ParentSpanID (tbl ! j) = SpanID (tbl ! k) \<Longrightarrow> descendantOf tbl i j"

text \<open>The edges that the downward recursion follows, from a table entry to its children.\<close>

definition childRel :: "(64 word \<rightharpoonup> nat list) \<Rightarrow> 64 word list \<Rightarrow> (nat \<times> nat) set" where
  "childRel children ids = {(m, j). m < length ids \<and> j \<in> set (childrenOf children (ids ! m))}"

text \<open>No \<open>lock_holder_txn\<close> tag of the snapshot has a value shorter than 8 bytes.\<close>

definition noShortTxn :: "SpansSnapshot \<Rightarrow> bool" where
  "noShortTxn snap \<longleftrightarrow>
     (\<forall>s\<in>set (concat (snap_Traces snap)). \<forall>v.
        rs_Tags s ''lock_holder_txn'' = Some v \<longrightarrow> 8 \<le> length v)"

section \<open>Example snapshots\<close>

definition mkSpan :: "string \<Rightarrow> 64 word \<Rightarrow> 64 word \<Rightarrow> 64 word \<Rightarrow> (string \<rightharpoonup> string) \<Rightarrow> RecordedSpan" where
  "mkSpan op sid pid gid tags =
     \<lparr>rs_Operation = op, rs_TraceID = 1, rs_SpanID = sid, rs_ParentSpanID = pid,
      rs_StartTime = 0, rs_GoroutineID = gid, rs_Tags = tags\<rparr>"

text \<open>A span whose \<open>lock_holder_txn\<close> tag has a value of three bytes.\<close>

definition shortTxnSnapshot :: SpansSnapshot where
  "shortTxnSnapshot =
     \<lparr>snap_Traces = [[mkSpan ''kv'' 1 0 7 [''lock_holder_txn'' \<mapsto> ''abc'']]],
      snap_Stacks = Map.empty\<rparr>"

definition shortTxnOrder :: mapOrder where
  "shortTxnOrder = \<lparr>tagOrder = (\<lambda>i. [''lock_holder_txn'']), stackOrder = []\<rparr>"

text \<open>
  A snapshot of two traces. In the first, a transaction span with a query span below it,
  an execution span below the query, and a second child of the transaction; in the
  second, a span blocked on the transaction. One goroutine has a stack trace.
\<close>

definition exampleSnapshot :: SpansSnapshot where
  "exampleSnapshot =
     \<lparr>snap_Traces =
        [[mkSpan ''sql txn'' 1 0 10 [''txn'' \<mapsto> ''0123456789''],
          mkSpan ''sql query'' 2 1 11 [''statement'' \<mapsto> ''SELECT 1''],
          mkSpan ''exec'' 3 2 12 Map.empty,
          mkSpan ''commit'' 5 1 10 Map.empty],
         [mkSpan ''kv'' 4 0 10 [''lock_holder_txn'' \<mapsto> ''0123456789'', ''node'' \<mapsto> ''1'']]],
      snap_Stacks = [10 \<mapsto> ''main'']\<rparr>"

definition exampleOrder :: mapOrder where
  "exampleOrder =
     \<lparr>tagOrder = (\<lambda>i. [[''txn''], [''statement''], [], [], [''node'', ''lock_holder_txn'']] ! i),
      stackOrder = [10]\<rparr>"

text \<open>The same snapshot with the keys of the maps ranged over in another order.\<close>

definition exampleOrder' :: mapOrder where
  "exampleOrder' =
     \<lparr>tagOrder = (\<lambda>i. [[''txn''], [''statement''], [], [], [''lock_holder_txn'', ''node'']] ! i),
      stackOrder = [10]\<rparr>"

definition exampleTag :: "string \<Rightarrow> string \<Rightarrow> ProcessedTag" where
  "exampleTag k v =
     \<lparr>Key = k, Val = v, Caption = [], Link = [], Hidden = False, Highlight = False,
      Inherit = False, Inherited = False, PropagateUp = False, CopiedFromChild = False\<rparr>"

definition exampleSpans :: "processedSpan list" where
  "exampleSpans =
     [\<lparr>Operation = ''sql txn'', TraceID = 1, SpanID = 1, ParentSpanID = 0, Start = 0,
       GoroutineID = 10,
       Tags = [exampleTag ''txn'' ''0123456789'',
               (exampleTag ''statement'' ''SELECT 1'')\<lparr>PropagateUp := True, CopiedFromChild := True\<rparr>]\<rparr>,
      \<lparr>Operation = ''sql query'', TraceID = 1, SpanID = 2, ParentSpanID = 1, Start = 0,
       GoroutineID = 11,
       Tags = [(exampleTag ''statement'' ''SELECT 1'')\<lparr>Inherit := True, PropagateUp := True\<rparr>]\<rparr>,
      \<lparr>Operation = ''exec'', TraceID = 1, SpanID = 3, ParentSpanID = 2, Start = 0,
       GoroutineID = 12,
       Tags = [(exampleTag ''statement'' ''SELECT 1'')\<lparr>Hidden := True, Inherit := True, Inherited := True\<rparr>]\<rparr>,
      \<lparr>Operation = ''commit'', TraceID = 1, SpanID = 5, ParentSpanID = 1, Start = 0,
       GoroutineID = 10, Tags = []\<rparr>,
      \<lparr>Operation = ''kv'', TraceID = 1, SpanID = 4, ParentSpanID = 0, Start = 0,
       GoroutineID = 10,
       Tags = [(exampleTag ''lock_holder_txn'' ''01234567'')
                 \<lparr>Caption := ''blocked on txn currently running query: SELECT 1'',
                  Link := ''01234567'', Highlight := True, PropagateUp := True\<rparr>,
               (exampleTag ''node'' ''1'')\<lparr>Hidden := True\<rparr>]\<rparr>]"

definition exampleOutput :: ProcessedSnapshot where
  "exampleOutput =
     \<lparr>Spans = exampleSpans,
      Stacks = [10 \<mapsto> ''main'', 11 \<mapsto> notFound, 12 \<mapsto> notFound]\<rparr>"

text \<open>A trace with a transaction span and a query span that has no \<open>statement\<close> tag.\<close>

definition bareQuerySnapshot :: SpansSnapshot where
  "bareQuerySnapshot =
     \<lparr>snap_Traces =
        [[mkSpan ''sql txn'' 1 0 10 [''txn'' \<mapsto> ''0123456789''],
          mkSpan ''sql query'' 2 1 11 Map.empty]],
      snap_Stacks = Map.empty\<rparr>"

text \<open>A span that names itself as its parent, with a \<open>statement\<close> tag.\<close>

definition cycleSnapshot :: SpansSnapshot where
  "cycleSnapshot =
     \<lparr>snap_Traces = [[mkSpan ''sql query'' 1 1 10 [''statement'' \<mapsto> ''SELECT 1'']]],
      snap_Stacks = Map.empty\<rparr>"

definition cycleOrder :: mapOrder where
  "cycleOrder = \<lparr>tagOrder = (\<lambda>i. [''statement'']), stackOrder = []\<rparr>"

definition cycleIndex :: index where
  "cycleIndex =
     \<lparr>processedSpans =
        [\<lparr>Operation = ''sql query'', TraceID = 1, SpanID = 1, ParentSpanID = 1, Start = 0,
          GoroutineID = 10,
          Tags = [(exampleTag ''statement'' ''SELECT 1'')\<lparr>Inherit := True, PropagateUp := True\<rparr>]\<rparr>],
      spansMap = [1 \<mapsto> 0],
      childrenMap = [1 \<mapsto> [0]]\<rparr>"


text \<open>A stack that admits a thousand nested calls of the downward propagation.\<close>

definition exampleDepth :: nat where
  "exampleDepth = 1000"

text \<open>
  A snapshot in which two spans share the span id 2: a query span, two children of it
  with the same id, and a span whose parent id is 2.
\<close>

definition dupSnapshot :: SpansSnapshot where
  "dupSnapshot =
     \<lparr>snap_Traces =
        [[mkSpan ''sql query'' 1 0 10 [''statement'' \<mapsto> ''SELECT 1''],
          mkSpan ''exec'' 2 1 10 Map.empty,
          mkSpan ''exec'' 2 1 10 Map.empty,
          mkSpan ''scan'' 3 2 10 Map.empty]],
      snap_Stacks = Map.empty\<rparr>"

definition dupOrder :: mapOrder where
  "dupOrder = \<lparr>tagOrder = (\<lambda>i. [[''statement''], [], [], []] ! i), stackOrder = []\<rparr>"

definition dupInherited :: ProcessedTag where
  "dupInherited =
     (exampleTag ''statement'' ''SELECT 1'')\<lparr>Hidden := True, Inherit := True, Inherited := True\<rparr>"

definition dupOutput :: ProcessedSnapshot where
  "dupOutput =
     \<lparr>Spans =
        [\<lparr>Operation = ''sql query'', TraceID = 1, SpanID = 1, ParentSpanID = 0, Start = 0,
          GoroutineID = 10,
          Tags = [(exampleTag ''statement'' ''SELECT 1'')\<lparr>Inherit := True, PropagateUp := True\<rparr>]\<rparr>,
         \<lparr>Operation = ''exec'', TraceID = 1, SpanID = 2, ParentSpanID = 1, Start = 0,
          GoroutineID = 10, Tags = [dupInherited]\<rparr>,
         \<lparr>Operation = ''exec'', TraceID = 1, SpanID = 2, ParentSpanID = 1, Start = 0,
          GoroutineID = 10, Tags = [dupInherited]\<rparr>,
         \<lparr>Operation = ''scan'', TraceID = 1, SpanID = 3, ParentSpanID = 2, Start = 0,
          GoroutineID = 10, Tags = [dupInherited, dupInherited]\<rparr>],
      Stacks = [10 \<mapsto> notFound]\<rparr>"

section \<open>Tables that only grow\<close>

lemma extends_refl: "extends tbl tbl (\<lambda>j. [])"
  by (simp add: extends_def)

lemma extends_trans:
  "extends a b f \<Longrightarrow> extends b c g \<Longrightarrow> extends a c (\<lambda>j. f j @ g j)"
  by (simp add: extends_def)

lemma extends_cong: "extends a b f \<Longrightarrow> (\<And>j. j < length a \<Longrightarrow> f j = g j) \<Longrightarrow> extends a b g"
  by (simp add: extends_def)

lemma extends_appendTag: "extends tbl (appendTag p tag tbl) (\<lambda>j. if j = p then [tag] else [])"
  by (auto simp: extends_def appendTag_def nth_list_update)

lemma extends_length: "extends a b f \<Longrightarrow> length b = length a"
  by (simp add: extends_def)

lemma extends_parents: "extends a b f \<Longrightarrow> map ParentSpanID b = map ParentSpanID a"
  by (auto simp: extends_def intro!: nth_equalityI)

lemma extends_ids: "extends a b f \<Longrightarrow> map SpanID b = map SpanID a"
  by (auto simp: extends_def intro!: nth_equalityI)

lemma extends_Tags: "extends a b f \<Longrightarrow> j < length a \<Longrightarrow> Tags (b ! j) = Tags (a ! j) @ f j"
  by (simp add: extends_def)

lemma downwardsLoop_dfs:
  assumes "downwardsLoop depth tag cs children tbl = Inr tbl'"
    and "inheritFlags tag = tag"
    and "\<forall>c\<in>set cs. c < length tbl"
    and "\<forall>k. \<forall>c\<in>set (childrenOf children k). c < length tbl"
  shows "\<exists>vs. dfsFrom children (map SpanID tbl) cs vs
           \<and> extends tbl tbl' (\<lambda>j. replicate (count_list vs j) tag)"
  using assms
proof (induction depth tag cs children tbl arbitrary: tbl' rule: downwardsLoop.induct)
  case (1 depth tag children tbl)
  then have "tbl' = tbl" by simp
  then show ?case
    by (auto intro!: exI[of _ "[]"] dfsFrom.intros simp: extends_refl)
next
  case (2 depth tag c rest children tbl)
  let ?t = "appendTag c tag tbl"
  let ?kids = "childrenOf children (SpanID (?t ! c))"
  have e1: "extends tbl ?t (\<lambda>j. if j = c then [tag] else [])" by (rule extends_appendTag)
  have len: "length ?t = length tbl" by (simp add: appendTag_def)
  have c: "c < length tbl" using "2.prems"(3) by simp
  have ids: "map SpanID ?t = map SpanID tbl" using e1 by (rule extends_ids)
  from "2.prems"(1) have d: "depth \<noteq> 0" by (auto split: if_splits)
  with "2.prems"(1) obtain t2 where
    call1: "downwardsLoop (depth - 1) (inheritFlags tag) ?kids children ?t = Inr t2"
    and call2: "downwardsLoop depth tag rest children t2 = Inr tbl'"
    by (auto split: sum.splits)
  have k1: "\<forall>c\<in>set ?kids. c < length ?t" using "2.prems"(4) len by simp
  have k2: "\<forall>k. \<forall>c\<in>set (childrenOf children k). c < length ?t" using "2.prems"(4) len by simp
  have fl: "inheritFlags (inheritFlags tag) = inheritFlags tag" using "2.prems"(2) by simp
  from "2.IH"(1)[OF d call1 fl k1 k2] obtain xs where
    xs: "dfsFrom children (map SpanID ?t) ?kids xs"
    and e2: "extends ?t t2 (\<lambda>j. replicate (count_list xs j) (inheritFlags tag))" by blast
  have len2: "length t2 = length tbl" using e2 len by (simp add: extends_length)
  have ids2: "map SpanID t2 = map SpanID tbl" using extends_ids[OF e2] ids by simp
  have r1: "\<forall>c\<in>set rest. c < length t2" using "2.prems"(3) len2 by simp
  have r2: "\<forall>k. \<forall>c\<in>set (childrenOf children k). c < length t2" using "2.prems"(4) len2 by simp
  from "2.IH"(2)[OF d call1 call2 "2.prems"(2) r1 r2] obtain ys where
    ys: "dfsFrom children (map SpanID t2) rest ys"
    and e3: "extends t2 tbl' (\<lambda>j. replicate (count_list ys j) tag)" by blast
  have "SpanID (?t ! c) = map SpanID tbl ! c"
    using ids c len by (metis nth_map)
  with xs ids have xs': "dfsFrom children (map SpanID tbl) (childrenOf children (map SpanID tbl ! c)) xs"
    by simp
  from ys ids2 have ys': "dfsFrom children (map SpanID tbl) rest ys" by simp
  from xs' ys' have dfs: "dfsFrom children (map SpanID tbl) (c # rest) (c # xs @ ys)"
    by (rule dfsFrom.intros)
  have "extends tbl tbl' (\<lambda>j. ((if j = c then [tag] else []) @ replicate (count_list xs j) (inheritFlags tag))
           @ replicate (count_list ys j) tag)"
    using extends_trans[OF extends_trans[OF e1 e2] e3] .
  then have "extends tbl tbl' (\<lambda>j. replicate (count_list (c # xs @ ys) j) tag)"
    by (rule extends_cong) (auto simp: "2.prems"(2) replicate_add[symmetric])
  with dfs show ?case by blast
qed

section \<open>Chains and visiting orders are determined by the table\<close>

lemma chainFrom_det:
  "chainFrom spans ps k ch \<Longrightarrow> chainFrom spans ps k ch' \<Longrightarrow> ch = ch'"
proof (induction arbitrary: ch' rule: chainFrom.induct)
  case (chain_end k)
  then show ?case by (auto elim: chainFrom.cases)
next
  case (chain_step k p ch)
  from chain_step.prems chain_step.hyps(1) obtain ch2 where
    "ch' = p # ch2" "chainFrom spans ps (ps ! p) ch2"
    by (auto elim: chainFrom.cases)
  with chain_step.IH show ?case by simp
qed

lemma chainFrom_tail:
  "chainFrom spans ps k ch \<Longrightarrow> p \<in> set ch
     \<Longrightarrow> \<exists>ch'. chainFrom spans ps (ps ! p) ch' \<and> length ch' < length ch"
proof (induction rule: chainFrom.induct)
  case (chain_end k)
  then show ?case by simp
next
  case (chain_step k q ch)
  show ?case
  proof (cases "p = q")
    case True
    with chain_step.hyps(2) show ?thesis by auto
  next
    case False
    with chain_step.prems have "p \<in> set ch" by simp
    from chain_step.IH[OF this] show ?thesis by auto
  qed
qed

lemma chainFrom_distinct: "chainFrom spans ps k ch \<Longrightarrow> distinct ch"
proof (induction rule: chainFrom.induct)
  case (chain_end k)
  then show ?case by simp
next
  case (chain_step k p ch)
  have "p \<notin> set ch"
  proof
    assume "p \<in> set ch"
    from chainFrom_tail[OF chain_step.hyps(2) this] obtain ch' where
      "chainFrom spans ps (ps ! p) ch'" "length ch' < length ch" by blast
    with chainFrom_det[OF chain_step.hyps(2)] show False by auto
  qed
  with chain_step.IH show ?case by simp
qed

lemma dfsFrom_det:
  "dfsFrom children ids cs vs \<Longrightarrow> dfsFrom children ids cs vs' \<Longrightarrow> vs = vs'"
proof (induction arbitrary: vs' rule: dfsFrom.induct)
  case dfs_done
  then show ?case by (auto elim: dfsFrom.cases)
next
  case (dfs_child c xs rest ys)
  from dfs_child.prems obtain xs2 ys2 where
    "vs' = c # xs2 @ ys2" "dfsFrom children ids (childrenOf children (ids ! c)) xs2"
    "dfsFrom children ids rest ys2"
    by (auto elim: dfsFrom.cases)
  with dfs_child.IH show ?case by simp
qed

lemma dfsFrom_sub:
  "dfsFrom children ids cs vs \<Longrightarrow> m \<in> set vs
     \<Longrightarrow> \<exists>ws. dfsFrom children ids (childrenOf children (ids ! m)) ws \<and> length ws < length vs"
proof (induction rule: dfsFrom.induct)
  case dfs_done
  then show ?case by simp
next
  case (dfs_child c xs rest ys)
  from dfs_child.prems consider "m = c" | "m \<in> set xs" | "m \<in> set ys" by auto
  then show ?case
  proof cases
    case 1
    with dfs_child.hyps(1) show ?thesis by auto
  next
    case 2
    from dfs_child.IH(1)[OF this] show ?thesis by auto
  next
    case 3
    from dfs_child.IH(2)[OF this] show ?thesis by auto
  qed
qed

lemma dfsFrom_not_self:
  assumes "dfsFrom children ids (childrenOf children (ids ! m)) ws"
  shows "m \<notin> set ws"
proof
  assume "m \<in> set ws"
  from dfsFrom_sub[OF assms this] obtain ws' where
    "dfsFrom children ids (childrenOf children (ids ! m)) ws'" "length ws' < length ws" by blast
  with dfsFrom_det[OF assms] show False by auto
qed

lemma upwardsLoop_chain:
  assumes "upwardsLoop tag parentID spans tbl = Some tbl'"
    and "\<forall>k p. spans k = Some p \<longrightarrow> p < length tbl"
  shows "\<exists>ch. chainFrom spans (map ParentSpanID tbl) parentID ch
           \<and> extends tbl tbl' (\<lambda>j. replicate (count_list ch j) tag)"
  using assms(2)
proof (induction rule: upwardsLoop.raw_induct[OF _ assms(1)])
  case (1 loop tag parentID spans tbl tbl')
  show ?case
  proof (cases "spans parentID")
    case None
    with 1(2) have "tbl' = tbl" by simp
    with None show ?thesis
      by (auto intro!: exI[of _ "[]"] chainFrom.intros simp: extends_refl)
  next
    case (Some p)
    let ?t = "appendTag p tag tbl"
    have e1: "extends tbl ?t (\<lambda>j. if j = p then [tag] else [])" by (rule extends_appendTag)
    have len: "length ?t = length tbl" by (simp add: appendTag_def)
    have p: "p < length tbl" using Some 1(3) by blast
    have par: "map ParentSpanID ?t = map ParentSpanID tbl" using e1 by (rule extends_parents)
    from 1(2) Some have call: "loop tag (ParentSpanID (?t ! p)) spans ?t = Some tbl'"
      by (simp add: Let_def)
    have "\<forall>k p. spans k = Some p \<longrightarrow> p < length ?t" using 1(3) len by simp
    from 1(1)[OF call this] obtain ch where
      ch: "chainFrom spans (map ParentSpanID ?t) (ParentSpanID (?t ! p)) ch"
      and e2: "extends ?t tbl' (\<lambda>j. replicate (count_list ch j) tag)" by blast
    have "ParentSpanID (?t ! p) = map ParentSpanID tbl ! p"
      using par p len by (metis nth_map)
    with ch par have "chainFrom spans (map ParentSpanID tbl) (map ParentSpanID tbl ! p) ch" by simp
    with Some have c: "chainFrom spans (map ParentSpanID tbl) parentID (p # ch)"
      by (rule chainFrom.intros)
    have "extends tbl tbl' (\<lambda>j. (if j = p then [tag] else []) @ replicate (count_list ch j) tag)"
      using e1 e2 by (rule extends_trans)
    then have "extends tbl tbl' (\<lambda>j. replicate (count_list (p # ch) j) tag)"
      by (rule extends_cong) auto
    with c show ?thesis by blast
  qed
qed

section \<open>What the two passes append\<close>

lemma upTags_chain:
  assumes "upTags ts s spans tbl = Some tbl'"
    and "\<forall>k p. spans k = Some p \<longrightarrow> p < length tbl"
  shows "\<exists>ch. (filter upSel ts \<noteq> [] \<longrightarrow> chainFrom spans (map ParentSpanID tbl) (ParentSpanID s) ch)
           \<and> extends tbl tbl'
               (\<lambda>j. concat (map (\<lambda>t. replicate (count_list ch j) (upCopy t)) (filter upSel ts)))"
  using assms
proof (induction ts arbitrary: tbl)
  case Nil
  then show ?case by (simp add: extends_refl)
next
  case (Cons t ts)
  show ?case
  proof (cases "upSel t")
    case False
    with Cons.prems(1) have "upTags ts s spans tbl = Some tbl'" by (auto simp: upSel_def)
    from Cons.IH[OF this Cons.prems(2)] False show ?thesis by simp
  next
    case True
    with Cons.prems(1) obtain t1 where
      call: "upwardsLoop (upCopy t) (ParentSpanID s) spans tbl = Some t1"
      and rest: "upTags ts s spans t1 = Some tbl'"
      by (auto simp: upSel_def propagateTagUpwards_def upCopy_def bind_eq_Some_conv)
    from upwardsLoop_chain[OF call Cons.prems(2)] obtain ch where
      ch: "chainFrom spans (map ParentSpanID tbl) (ParentSpanID s) ch"
      and e1: "extends tbl t1 (\<lambda>j. replicate (count_list ch j) (upCopy t))" by blast
    have ok1: "\<forall>k p. spans k = Some p \<longrightarrow> p < length t1"
      using Cons.prems(2) extends_length[OF e1] by simp
    from Cons.IH[OF rest ok1] obtain ch2 where
      ch2: "filter upSel ts \<noteq> [] \<longrightarrow> chainFrom spans (map ParentSpanID t1) (ParentSpanID s) ch2"
      and e2: "extends t1 tbl'
         (\<lambda>j. concat (map (\<lambda>t. replicate (count_list ch2 j) (upCopy t)) (filter upSel ts)))"
      by blast
    have same: "concat (map (\<lambda>t. replicate (count_list ch2 j) (upCopy t)) (filter upSel ts))
        = concat (map (\<lambda>t. replicate (count_list ch j) (upCopy t)) (filter upSel ts))" for j
    proof (cases "filter upSel ts = []")
      case True
      then show ?thesis by simp
    next
      case False
      with ch2 extends_parents[OF e1] have "chainFrom spans (map ParentSpanID tbl) (ParentSpanID s) ch2"
        by simp
      with ch have "ch2 = ch" by (rule chainFrom_det[symmetric])
      then show ?thesis by simp
    qed
    have "extends tbl tbl' (\<lambda>j. replicate (count_list ch j) (upCopy t)
            @ concat (map (\<lambda>t. replicate (count_list ch2 j) (upCopy t)) (filter upSel ts)))"
      using e1 e2 by (rule extends_trans)
    then have "extends tbl tbl'
        (\<lambda>j. concat (map (\<lambda>t. replicate (count_list ch j) (upCopy t)) (filter upSel (t # ts))))"
      by (rule extends_cong) (simp add: True same)
    with ch show ?thesis by blast
  qed
qed

lemma copiesOver_Cons:
  "copiesOver (i # is) sel cp tbl targets j =
     concat (map (\<lambda>t. replicate (count_list (targets i) j) (cp t)) (filter sel (Tags (tbl ! i))))
     @ copiesOver is sel cp tbl targets j"
  by (simp add: copiesOver_def)

lemma copiesOver_upd:
  "i \<notin> set is \<Longrightarrow> copiesOver is sel cp tbl (targets(i := x)) j = copiesOver is sel cp tbl targets j"
  by (auto simp: copiesOver_def intro!: arg_cong[where f=concat])

lemma set_copiesOver: "t \<in> set (copiesOver is sel cp tbl targets j) \<Longrightarrow> \<exists>u. t = cp u"
  by (auto simp: copiesOver_def)

lemma upSel_upCopy [simp]: "\<not> upSel (upCopy t)"
  by (simp add: upSel_def upCopy_def)

lemma downSel_upCopy [simp]: "\<not> downSel (upCopy t)"
  by (simp add: downSel_def upCopy_def)

lemma downSel_inheritFlags [simp]: "\<not> downSel (inheritFlags t)"
  by (simp add: downSel_def inheritFlags_def)

lemma inheritFlags_idem [simp]: "inheritFlags (inheritFlags t) = inheritFlags t"
  by (simp add: inheritFlags_def)

lemma upSpans_chains:
  assumes "upSpans is spans tbl = Some tbl'"
    and "\<forall>k p. spans k = Some p \<longrightarrow> p < length tbl"
    and "distinct is" and "\<forall>i\<in>set is. i < length tbl"
    and "extends tbl0 tbl f" and "\<forall>j. \<forall>t\<in>set (f j). \<not> upSel t"
  shows "\<exists>chs. (\<forall>i\<in>set is. filter upSel (Tags (tbl0 ! i)) \<noteq> [] \<longrightarrow>
                   chainFrom spans (map ParentSpanID tbl0) (ParentSpanID (tbl0 ! i)) (chs i))
           \<and> extends tbl tbl' (copiesOver is upSel upCopy tbl0 chs)"
  using assms
proof (induction "is" arbitrary: tbl f)
  case Nil
  then show ?case by (simp add: copiesOver_def extends_refl)
next
  case (Cons i "is")
  let ?s = "tbl ! i"
  let ?orig = "filter upSel (Tags (tbl0 ! i))"
  have len: "length tbl = length tbl0" using Cons.prems(5) by (rule extends_length)
  have i: "i < length tbl0" using Cons.prems(4) len by simp
  have tags: "Tags ?s = Tags (tbl0 ! i) @ f i" using Cons.prems(5) i by (rule extends_Tags)
  have sel: "filter upSel (Tags ?s) = ?orig" using Cons.prems(6) by (simp add: tags)
  have par: "map ParentSpanID tbl = map ParentSpanID tbl0" using Cons.prems(5) by (rule extends_parents)
  have pi: "ParentSpanID ?s = ParentSpanID (tbl0 ! i)"
    using par i len by (metis nth_map)
  from Cons.prems(1) obtain t1 where
    call: "upTags (Tags ?s) ?s spans tbl = Some t1" and rest: "upSpans is spans t1 = Some tbl'"
    by (auto simp: Let_def bind_eq_Some_conv)
  from upTags_chain[OF call Cons.prems(2)] obtain ch where
    ch: "?orig \<noteq> [] \<longrightarrow> chainFrom spans (map ParentSpanID tbl0) (ParentSpanID (tbl0 ! i)) ch"
    and e1: "extends tbl t1 (\<lambda>j. concat (map (\<lambda>t. replicate (count_list ch j) (upCopy t)) ?orig))"
    by (auto simp: sel par pi)
  have len1: "length t1 = length tbl" using e1 by (rule extends_length)
  have base: "extends tbl0 t1 (\<lambda>j. f j @ concat (map (\<lambda>t. replicate (count_list ch j) (upCopy t)) ?orig))"
    using Cons.prems(5) e1 by (rule extends_trans)
  have nosel: "\<forall>j. \<forall>t\<in>set (f j @ concat (map (\<lambda>t. replicate (count_list ch j) (upCopy t)) ?orig)). \<not> upSel t"
    using Cons.prems(6) by auto
  have "\<exists>chs. (\<forall>i\<in>set is. filter upSel (Tags (tbl0 ! i)) \<noteq> [] \<longrightarrow>
                   chainFrom spans (map ParentSpanID tbl0) (ParentSpanID (tbl0 ! i)) (chs i))
           \<and> extends t1 tbl' (copiesOver is upSel upCopy tbl0 chs)"
    using Cons.prems(2,3,4) len1 by (intro Cons.IH[OF rest _ _ _ base nosel]) auto
  then obtain chs where
    chs: "\<forall>i\<in>set is. filter upSel (Tags (tbl0 ! i)) \<noteq> [] \<longrightarrow>
                   chainFrom spans (map ParentSpanID tbl0) (ParentSpanID (tbl0 ! i)) (chs i)"
    and e2: "extends t1 tbl' (copiesOver is upSel upCopy tbl0 chs)" by blast
  let ?chs = "chs(i := ch)"
  have notin: "i \<notin> set is" using Cons.prems(3) by simp
  have c: "\<forall>k\<in>set (i # is). filter upSel (Tags (tbl0 ! k)) \<noteq> [] \<longrightarrow>
                   chainFrom spans (map ParentSpanID tbl0) (ParentSpanID (tbl0 ! k)) (?chs k)"
    using ch chs notin by auto
  have "extends tbl tbl' (\<lambda>j. concat (map (\<lambda>t. replicate (count_list ch j) (upCopy t)) ?orig)
           @ copiesOver is upSel upCopy tbl0 chs j)"
    using e1 e2 by (rule extends_trans)
  then have "extends tbl tbl' (copiesOver (i # is) upSel upCopy tbl0 ?chs)"
    by (rule extends_cong) (simp add: copiesOver_Cons copiesOver_upd[OF notin])
  with c show ?case by blast
qed

lemma downTags_dfs:
  assumes "downTags depth ts s children tbl = Inr tbl'"
    and "\<forall>k. \<forall>c\<in>set (childrenOf children k). c < length tbl"
  shows "\<exists>vs. (filter downSel ts \<noteq> [] \<longrightarrow>
                  dfsFrom children (map SpanID tbl) (childrenOf children (SpanID s)) vs)
           \<and> extends tbl tbl'
               (\<lambda>j. concat (map (\<lambda>t. replicate (count_list vs j) (inheritFlags t)) (filter downSel ts)))"
  using assms
proof (induction ts arbitrary: tbl)
  case Nil
  then show ?case by (simp add: extends_refl)
next
  case (Cons t ts)
  show ?case
  proof (cases "downSel t")
    case False
    with Cons.prems(1) have "downTags depth ts s children tbl = Inr tbl'" by (auto simp: downSel_def)
    from Cons.IH[OF this Cons.prems(2)] False show ?thesis by simp
  next
    case True
    let ?kids = "childrenOf children (SpanID s)"
    from True Cons.prems(1) obtain t1 where
      call: "downwardsLoop (depth - 1) (inheritFlags t) ?kids children tbl = Inr t1"
      and rest: "downTags depth ts s children t1 = Inr tbl'"
      by (auto simp: downSel_def propagateInheritTagDownwards_def split: sum.splits if_splits)
    have "\<forall>c\<in>set ?kids. c < length tbl" using Cons.prems(2) by blast
    from downwardsLoop_dfs[OF call inheritFlags_idem this Cons.prems(2)] obtain vs where
      vs: "dfsFrom children (map SpanID tbl) ?kids vs"
      and e1: "extends tbl t1 (\<lambda>j. replicate (count_list vs j) (inheritFlags t))" by blast
    have ok1: "\<forall>k. \<forall>c\<in>set (childrenOf children k). c < length t1"
      using Cons.prems(2) extends_length[OF e1] by simp
    from Cons.IH[OF rest ok1] obtain vs2 where
      vs2: "filter downSel ts \<noteq> [] \<longrightarrow> dfsFrom children (map SpanID t1) ?kids vs2"
      and e2: "extends t1 tbl'
         (\<lambda>j. concat (map (\<lambda>t. replicate (count_list vs2 j) (inheritFlags t)) (filter downSel ts)))"
      by blast
    have same: "concat (map (\<lambda>t. replicate (count_list vs2 j) (inheritFlags t)) (filter downSel ts))
        = concat (map (\<lambda>t. replicate (count_list vs j) (inheritFlags t)) (filter downSel ts))" for j
    proof (cases "filter downSel ts = []")
      case True
      then show ?thesis by simp
    next
      case False
      with vs2 extends_ids[OF e1] have "dfsFrom children (map SpanID tbl) ?kids vs2"
        by simp
      with vs have "vs2 = vs" by (rule dfsFrom_det[symmetric])
      then show ?thesis by simp
    qed
    have "extends tbl tbl' (\<lambda>j. replicate (count_list vs j) (inheritFlags t)
            @ concat (map (\<lambda>t. replicate (count_list vs2 j) (inheritFlags t)) (filter downSel ts)))"
      using e1 e2 by (rule extends_trans)
    then have "extends tbl tbl'
        (\<lambda>j. concat (map (\<lambda>t. replicate (count_list vs j) (inheritFlags t)) (filter downSel (t # ts))))"
      by (rule extends_cong) (simp add: True same)
    with vs show ?thesis by blast
  qed
qed

lemma downSpans_dfs:
  assumes "downSpans depth is children tbl = Inr tbl'"
    and "\<forall>k. \<forall>c\<in>set (childrenOf children k). c < length tbl"
    and "distinct is" and "\<forall>i\<in>set is. i < length tbl"
    and "extends tbl0 tbl f" and "\<forall>j. \<forall>t\<in>set (f j). \<not> downSel t"
  shows "\<exists>vss. (\<forall>i\<in>set is. filter downSel (Tags (tbl0 ! i)) \<noteq> [] \<longrightarrow>
                   dfsFrom children (map SpanID tbl0) (childrenOf children (SpanID (tbl0 ! i))) (vss i))
           \<and> extends tbl tbl' (copiesOver is downSel inheritFlags tbl0 vss)"
  using assms
proof (induction "is" arbitrary: tbl f)
  case Nil
  then show ?case by (simp add: copiesOver_def extends_refl)
next
  case (Cons i "is")
  let ?s = "tbl ! i"
  let ?orig = "filter downSel (Tags (tbl0 ! i))"
  have len: "length tbl = length tbl0" using Cons.prems(5) by (rule extends_length)
  have i: "i < length tbl0" using Cons.prems(4) len by simp
  have tags: "Tags ?s = Tags (tbl0 ! i) @ f i" using Cons.prems(5) i by (rule extends_Tags)
  have sel: "filter downSel (Tags ?s) = ?orig" using Cons.prems(6) by (simp add: tags)
  have ids: "map SpanID tbl = map SpanID tbl0" using Cons.prems(5) by (rule extends_ids)
  have si: "SpanID ?s = SpanID (tbl0 ! i)"
    using ids i len by (metis nth_map)
  from Cons.prems(1) obtain t1 where
    call: "downTags depth (Tags ?s) ?s children tbl = Inr t1"
    and rest: "downSpans depth is children t1 = Inr tbl'"
    by (auto split: sum.splits)
  from downTags_dfs[OF call Cons.prems(2)] obtain vs where
    vs: "?orig \<noteq> [] \<longrightarrow> dfsFrom children (map SpanID tbl0) (childrenOf children (SpanID (tbl0 ! i))) vs"
    and e1: "extends tbl t1 (\<lambda>j. concat (map (\<lambda>t. replicate (count_list vs j) (inheritFlags t)) ?orig))"
    by (auto simp: sel ids si)
  have len1: "length t1 = length tbl" using e1 by (rule extends_length)
  have base: "extends tbl0 t1 (\<lambda>j. f j @ concat (map (\<lambda>t. replicate (count_list vs j) (inheritFlags t)) ?orig))"
    using Cons.prems(5) e1 by (rule extends_trans)
  have nosel: "\<forall>j. \<forall>t\<in>set (f j @ concat (map (\<lambda>t. replicate (count_list vs j) (inheritFlags t)) ?orig)). \<not> downSel t"
    using Cons.prems(6) by auto
  have "\<exists>vss. (\<forall>i\<in>set is. filter downSel (Tags (tbl0 ! i)) \<noteq> [] \<longrightarrow>
                   dfsFrom children (map SpanID tbl0) (childrenOf children (SpanID (tbl0 ! i))) (vss i))
           \<and> extends t1 tbl' (copiesOver is downSel inheritFlags tbl0 vss)"
    using Cons.prems(2,3,4) len1 by (intro Cons.IH[OF rest _ _ _ base nosel]) auto
  then obtain vss where
    vss: "\<forall>i\<in>set is. filter downSel (Tags (tbl0 ! i)) \<noteq> [] \<longrightarrow>
                   dfsFrom children (map SpanID tbl0) (childrenOf children (SpanID (tbl0 ! i))) (vss i)"
    and e2: "extends t1 tbl' (copiesOver is downSel inheritFlags tbl0 vss)" by blast
  let ?vss = "vss(i := vs)"
  have notin: "i \<notin> set is" using Cons.prems(3) by simp
  have c: "\<forall>k\<in>set (i # is). filter downSel (Tags (tbl0 ! k)) \<noteq> [] \<longrightarrow>
                   dfsFrom children (map SpanID tbl0) (childrenOf children (SpanID (tbl0 ! k))) (?vss k)"
    using vs vss notin by auto
  have "extends tbl tbl' (\<lambda>j. concat (map (\<lambda>t. replicate (count_list vs j) (inheritFlags t)) ?orig)
           @ copiesOver is downSel inheritFlags tbl0 vss j)"
    using e1 e2 by (rule extends_trans)
  then have "extends tbl tbl' (copiesOver (i # is) downSel inheritFlags tbl0 ?vss)"
    by (rule extends_cong) (simp add: copiesOver_Cons copiesOver_upd[OF notin])
  with c show ?case by blast
qed

section \<open>The first loop\<close>

lemma processTag_flags:
  "processTag k v snap = Inr t \<Longrightarrow> Key t = k \<and> \<not> CopiedFromChild t \<and> \<not> Inherited t"
  by (auto simp: processTag_def Let_def split: if_splits)

lemma processTags_keys:
  "processTags ks m snap = Inr ts \<Longrightarrow>
     map Key ts = ks \<and> (\<forall>t\<in>set ts. \<not> CopiedFromChild t \<and> \<not> Inherited t)"
proof (induction ks arbitrary: ts)
  case Nil
  then show ?case by simp
next
  case (Cons k ks)
  from Cons.prems obtain p ps where
    p: "processTag k (tagIndex m k) snap = Inr p" and ps: "processTags ks m snap = Inr ps"
    and ts: "ts = p # ps"
    by (auto split: sum.splits)
  from Cons.IH[OF ps] processTag_flags[OF p] ts show ?case by simp
qed

lemma processSpan_fields:
  assumes "processSpan ks s snap = Inr p"
  shows "Operation p = rs_Operation s" "TraceID p = rs_TraceID s" "SpanID p = rs_SpanID s"
    "ParentSpanID p = rs_ParentSpanID s" "Start p = rs_StartTime s"
    "GoroutineID p = rs_GoroutineID s"
    "map Key (Tags p) = sort ks" "\<forall>t\<in>set (Tags p). \<not> CopiedFromChild t \<and> \<not> Inherited t"
  using assms processTags_keys[of "sort ks" "rs_Tags s" snap]
  by (auto simp: processSpan_def Let_def split: sum.splits)

lemma childrenOf_upd:
  "childrenOf (case cm k of None \<Rightarrow> cm(k \<mapsto> [i]) | Some cs \<Rightarrow> cm(k \<mapsto> cs @ [i])) k'
     = childrenOf cm k' @ (if k = k' then [i] else [])"
  by (auto simp: childrenOf_def split: option.splits)

lemma indexSpans_char:
  assumes "indexSpans ord snap i rest ix = Inr ix'"
    and "length (processedSpans ix) = i + length rest"
  shows "length (processedSpans ix') = i + length rest
    \<and> (\<forall>j<i. processedSpans ix' ! j = processedSpans ix ! j)
    \<and> (\<forall>j. i \<le> j \<and> j < i + length rest \<longrightarrow>
          processSpan (ord j) (rest ! (j - i)) snap = Inr (processedSpans ix' ! j))
    \<and> (\<forall>k. childrenOf (childrenMap ix') k = childrenOf (childrenMap ix) k
          @ filter (\<lambda>j. rs_ParentSpanID (rest ! (j - i)) = k) [i..<i + length rest])
    \<and> (\<forall>k. spansMap ix' k =
          (if \<exists>j. i \<le> j \<and> j < i + length rest \<and> rs_SpanID (rest ! (j - i)) = k
           then Some (GREATEST j. i \<le> j \<and> j < i + length rest \<and> rs_SpanID (rest ! (j - i)) = k)
           else spansMap ix k))"
  using assms
proof (induction rest arbitrary: i ix)
  case Nil
  then show ?case by auto
next
  case (Cons s rest)
  from Cons.prems(1) obtain p where
    p: "processSpan (ord i) s snap = Inr p" by (auto split: sum.splits)
  let ?ix1 = "ix\<lparr>processedSpans := (processedSpans ix)[i := p],
                spansMap := (spansMap ix)(SpanID p \<mapsto> i),
                childrenMap :=
                  (case childrenMap ix (ParentSpanID p) of
                     None \<Rightarrow> (childrenMap ix)(ParentSpanID p \<mapsto> [i])
                   | Some cs \<Rightarrow> (childrenMap ix)(ParentSpanID p \<mapsto> cs @ [i]))\<rparr>"
  from Cons.prems(1) p have run: "indexSpans ord snap (Suc i) rest ?ix1 = Inr ix'" by simp
  have len1: "length (processedSpans ?ix1) = Suc i + length rest" using Cons.prems(2) by simp
  note IH = Cons.IH[OF run len1]
  have sid: "SpanID p = rs_SpanID s" and pid: "ParentSpanID p = rs_ParentSpanID s"
    using processSpan_fields[OF p] by simp_all
  have a: "length (processedSpans ix') = i + length (s # rest)" using IH by simp
  have b: "\<forall>j<i. processedSpans ix' ! j = processedSpans ix ! j" using IH by simp
  have ati: "processedSpans ix' ! i = p" using IH Cons.prems(2) by simp
  have c: "\<forall>j. i \<le> j \<and> j < i + length (s # rest) \<longrightarrow>
          processSpan (ord j) ((s # rest) ! (j - i)) snap = Inr (processedSpans ix' ! j)"
  proof (intro allI impI)
    fix j assume j: "i \<le> j \<and> j < i + length (s # rest)"
    show "processSpan (ord j) ((s # rest) ! (j - i)) snap = Inr (processedSpans ix' ! j)"
    proof (cases "j = i")
      case True
      with p ati show ?thesis by simp
    next
      case False
      with j have "Suc i \<le> j \<and> j < Suc i + length rest" by simp
      moreover from False j have "(s # rest) ! (j - i) = rest ! (j - Suc i)"
        by (simp add: nth_Cons')
      ultimately show ?thesis using IH by simp
    qed
  qed
  have d: "\<forall>k. childrenOf (childrenMap ix') k = childrenOf (childrenMap ix) k
          @ filter (\<lambda>j. rs_ParentSpanID ((s # rest) ! (j - i)) = k) [i..<i + length (s # rest)]"
  proof
    fix k
    have "filter (\<lambda>j. rs_ParentSpanID ((s # rest) ! (j - i)) = k) [Suc i..<Suc i + length rest]
        = filter (\<lambda>j. rs_ParentSpanID (rest ! (j - Suc i)) = k) [Suc i..<Suc i + length rest]"
      by (rule filter_cong) (auto simp: nth_Cons')
    moreover have "[i..<i + length (s # rest)] = i # [Suc i..<Suc i + length rest]"
      using upt_conv_Cons[of i "i + length (s # rest)"] by simp
    moreover have "childrenOf (childrenMap ?ix1) k
        = childrenOf (childrenMap ix) k @ (if ParentSpanID p = k then [i] else [])"
      by (simp add: childrenOf_upd)
    moreover have "childrenOf (childrenMap ix') k = childrenOf (childrenMap ?ix1) k
          @ filter (\<lambda>j. rs_ParentSpanID (rest ! (j - Suc i)) = k) [Suc i..<Suc i + length rest]"
      using IH by blast
    ultimately show "childrenOf (childrenMap ix') k = childrenOf (childrenMap ix) k
          @ filter (\<lambda>j. rs_ParentSpanID ((s # rest) ! (j - i)) = k) [i..<i + length (s # rest)]"
      by (simp add: pid)
  qed
  have e: "\<forall>k. spansMap ix' k =
          (if \<exists>j. i \<le> j \<and> j < i + length (s # rest) \<and> rs_SpanID ((s # rest) ! (j - i)) = k
           then Some (GREATEST j. i \<le> j \<and> j < i + length (s # rest) \<and> rs_SpanID ((s # rest) ! (j - i)) = k)
           else spansMap ix k)"
  proof
    fix k
    let ?Q = "\<lambda>j. Suc i \<le> j \<and> j < Suc i + length rest \<and> rs_SpanID (rest ! (j - Suc i)) = k"
    let ?R = "\<lambda>j. i \<le> j \<and> j < i + length (s # rest) \<and> rs_SpanID ((s # rest) ! (j - i)) = k"
    have QR: "?R j \<longleftrightarrow> (j = i \<and> rs_SpanID s = k) \<or> ?Q j" for j
      by (cases "j = i") (auto simp: nth_Cons')
    have eq: "spansMap ix' k = (if \<exists>j. ?Q j then Some (GREATEST j. ?Q j) else spansMap ?ix1 k)"
      using IH by simp
    show "spansMap ix' k = (if \<exists>j. ?R j then Some (GREATEST j. ?R j) else spansMap ix k)"
    proof (cases "\<exists>j. ?Q j")
      case True
      then obtain j0 where j0: "?Q j0" by blast
      have bnd: "\<And>y. ?Q y \<Longrightarrow> y \<le> Suc i + length rest" by simp
      have g: "?Q (GREATEST j. ?Q j)" using j0 bnd by (rule GreatestI_nat)
      have "(GREATEST j. ?R j) = (GREATEST j. ?Q j)"
      proof (rule Greatest_equality)
        show "?R (GREATEST j. ?Q j)" using g QR by blast
      next
        fix y assume "?R y"
        then consider "y = i" | "?Q y" using QR by blast
        then show "y \<le> (GREATEST j. ?Q j)"
        proof cases
          case 1
          with g show ?thesis by simp
        next
          case 2
          then show ?thesis using bnd by (rule Greatest_le_nat)
        qed
      qed
      moreover have "\<exists>j. ?R j" using True QR by blast
      ultimately have rhs: "(if \<exists>j. ?R j then Some (GREATEST j. ?R j) else spansMap ix k)
          = Some (GREATEST j. ?Q j)" by (simp only: if_True)
      have s3: "spansMap ix' k = Some (GREATEST j. ?Q j)"
        by (subst eq) (simp only: True if_True)
      show ?thesis by (rule trans[OF s3 rhs[symmetric]])
    next
      case False
      have s1: "spansMap ix' k = spansMap ?ix1 k"
        by (subst eq) (simp only: False if_False)
      have s2: "spansMap ?ix1 k = (if rs_SpanID s = k then Some i else spansMap ix k)"
        by (simp add: sid)
      show ?thesis
      proof (cases "rs_SpanID s = k")
        case True
        have "?R i" using True by simp
        moreover have "\<And>y. ?R y \<Longrightarrow> y = i" using False QR by blast
        ultimately have "(GREATEST j. ?R j) = i" and ex: "\<exists>j. ?R j"
          by (auto intro!: Greatest_equality)
        then have rhs: "(if \<exists>j. ?R j then Some (GREATEST j. ?R j) else spansMap ix k) = Some i"
          by (simp only: if_True)
        have s3: "spansMap ix' k = Some i" using s1 s2 True by simp
        show ?thesis by (rule trans[OF s3 rhs[symmetric]])
      next
        case neq: False
        with False QR have "\<not> (\<exists>j. ?R j)" by blast
        then have rhs: "(if \<exists>j. ?R j then Some (GREATEST j. ?R j) else spansMap ix k) = spansMap ix k"
          by (simp only: if_False)
        have s3: "spansMap ix' k = spansMap ix k" using s1 s2 neq by simp
        show ?thesis by (rule trans[OF s3 rhs[symmetric]])
      qed
    qed
  qed
  from a b c d e show ?case by blast
qed

lemma buildIndex_char:
  assumes "buildIndex ord snap = Inr ix"
  defines "rs \<equiv> concat (snap_Traces snap)"
  shows "length (processedSpans ix) = length rs"
    and "\<And>j. j < length rs \<Longrightarrow> processSpan (tagOrder ord j) (rs ! j) snap = Inr (processedSpans ix ! j)"
    and "\<And>k. childrenOf (childrenMap ix) k = filter (\<lambda>j. rs_ParentSpanID (rs ! j) = k) [0..<length rs]"
    and "\<And>k. spansMap ix k =
          (if \<exists>j<length rs. rs_SpanID (rs ! j) = k
           then Some (GREATEST j. j < length rs \<and> rs_SpanID (rs ! j) = k) else None)"
proof -
  let ?ix0 = "\<lparr>processedSpans = replicate (length rs) zeroSpan,
            spansMap = Map.empty, childrenMap = Map.empty\<rparr>"
  have run: "indexSpans (tagOrder ord) snap 0 rs ?ix0 = Inr ix"
    using assms(1) by (simp add: buildIndex_def rs_def Let_def)
  have len: "length (processedSpans ?ix0) = 0 + length rs" by simp
  note c = indexSpans_char[OF run len]
  show "length (processedSpans ix) = length rs" using c by simp
  show "\<And>j. j < length rs \<Longrightarrow> processSpan (tagOrder ord j) (rs ! j) snap = Inr (processedSpans ix ! j)"
    using c by simp
  show "\<And>k. childrenOf (childrenMap ix) k = filter (\<lambda>j. rs_ParentSpanID (rs ! j) = k) [0..<length rs]"
    using c by (simp add: childrenOf_def)
  show "\<And>k. spansMap ix k =
          (if \<exists>j<length rs. rs_SpanID (rs ! j) = k
           then Some (GREATEST j. j < length rs \<and> rs_SpanID (rs ! j) = k) else None)"
    using c by simp
qed

lemma buildIndex_fields:
  assumes "buildIndex ord snap = Inr ix" and "j < length (concat (snap_Traces snap))"
  shows "SpanID (processedSpans ix ! j) = rs_SpanID (concat (snap_Traces snap) ! j)"
    and "ParentSpanID (processedSpans ix ! j) = rs_ParentSpanID (concat (snap_Traces snap) ! j)"
    and "\<forall>t\<in>set (Tags (processedSpans ix ! j)). \<not> CopiedFromChild t \<and> \<not> Inherited t"
  using processSpan_fields[OF buildIndex_char(2)[OF assms]] by simp_all

lemma buildIndex_spansMap_range:
  assumes "buildIndex ord snap = Inr ix" and "spansMap ix k = Some p"
  shows "p < length (processedSpans ix) \<and> SpanID (processedSpans ix ! p) = k"
proof -
  let ?rs = "concat (snap_Traces snap)"
  let ?Q = "\<lambda>j. j < length ?rs \<and> rs_SpanID (?rs ! j) = k"
  from assms(2) buildIndex_char(4)[OF assms(1), of k]
  have ex: "\<exists>j. ?Q j" and p: "p = (GREATEST j. ?Q j)"
    by (auto split: if_splits)
  from ex obtain j0 where "?Q j0" by blast
  moreover have "\<And>y. ?Q y \<Longrightarrow> y \<le> length ?rs" by simp
  ultimately have "?Q (GREATEST j. ?Q j)" by (rule GreatestI_nat)
  with p have "?Q p" by simp
  then show ?thesis
    using buildIndex_char(1)[OF assms(1)] buildIndex_fields(1)[OF assms(1)] by simp
qed

lemma buildIndex_children:
  assumes "buildIndex ord snap = Inr ix"
  shows "childrenOf (childrenMap ix) k
     = filter (\<lambda>j. ParentSpanID (processedSpans ix ! j) = k) [0..<length (processedSpans ix)]"
proof -
  let ?rs = "concat (snap_Traces snap)"
  have "filter (\<lambda>j. rs_ParentSpanID (?rs ! j) = k) [0..<length ?rs]
      = filter (\<lambda>j. ParentSpanID (processedSpans ix ! j) = k) [0..<length ?rs]"
    by (rule filter_cong) (auto simp: buildIndex_fields(2)[OF assms])
  then show ?thesis
    using buildIndex_char(3)[OF assms, of k] buildIndex_char(1)[OF assms] by simp
qed

section \<open>The shape of the output\<close>

lemma ProcessSnapshot_shape:
  assumes "ProcessSnapshot ord depth snap = Some (Inr out)"
  shows "\<exists>ix chs vss. buildIndex ord snap = Inr ix
    \<and> (\<forall>i<length (processedSpans ix). filter upSel (Tags (processedSpans ix ! i)) \<noteq> [] \<longrightarrow>
          chainFrom (spansMap ix) (map ParentSpanID (processedSpans ix))
            (ParentSpanID (processedSpans ix ! i)) (chs i))
    \<and> (\<forall>i<length (processedSpans ix). filter downSel (Tags (processedSpans ix ! i)) \<noteq> [] \<longrightarrow>
          dfsFrom (childrenMap ix) (map SpanID (processedSpans ix))
            (childrenOf (childrenMap ix) (SpanID (processedSpans ix ! i))) (vss i))
    \<and> extends (processedSpans ix) (Spans out)
          (\<lambda>j. copiesOver [0..<length (processedSpans ix)] upSel upCopy (processedSpans ix) chs j
              @ copiesOver [0..<length (processedSpans ix)] downSel inheritFlags (processedSpans ix) vss j)
    \<and> Stacks out = fillStacks (concat (snap_Traces snap))
          (copyStacks (stackOrder ord) (snap_Stacks snap) Map.empty)"
proof -
  from assms obtain ix where ix: "buildIndex ord snap = Inr ix"
    by (auto simp: ProcessSnapshot_def Let_def split: sum.splits)
  let ?T = "processedSpans ix"
  let ?n = "length ?T"
  from assms ix obtain t1 where
    up: "upSpans [0..<?n] (spansMap ix) ?T = Some t1"
    and down0: "downSpans depth [0..<length t1] (childrenMap ix) t1 = Inr (Spans out)"
    and st: "Stacks out = fillStacks (concat (snap_Traces snap))
          (copyStacks (stackOrder ord) (snap_Stacks snap) Map.empty)"
    by (auto simp: ProcessSnapshot_def Let_def split: option.splits sum.splits)
  have ok: "\<forall>k p. spansMap ix k = Some p \<longrightarrow> p < ?n"
    using buildIndex_spansMap_range[OF ix] by blast
  have "\<exists>chs. (\<forall>i\<in>set [0..<?n]. filter upSel (Tags (?T ! i)) \<noteq> [] \<longrightarrow>
                   chainFrom (spansMap ix) (map ParentSpanID ?T) (ParentSpanID (?T ! i)) (chs i))
           \<and> extends ?T t1 (copiesOver [0..<?n] upSel upCopy ?T chs)"
    by (rule upSpans_chains[OF up ok _ _ extends_refl]) auto
  then have "\<exists>chs. (\<forall>i<?n. filter upSel (Tags (?T ! i)) \<noteq> [] \<longrightarrow>
                   chainFrom (spansMap ix) (map ParentSpanID ?T) (ParentSpanID (?T ! i)) (chs i))
           \<and> extends ?T t1 (copiesOver [0..<?n] upSel upCopy ?T chs)"
    by (simp add: Ball_def)
  then obtain chs where
    chs: "\<forall>i<?n. filter upSel (Tags (?T ! i)) \<noteq> [] \<longrightarrow>
                   chainFrom (spansMap ix) (map ParentSpanID ?T) (ParentSpanID (?T ! i)) (chs i)"
    and e1: "extends ?T t1 (copiesOver [0..<?n] upSel upCopy ?T chs)" by blast
  have len1: "length t1 = ?n" using e1 by (rule extends_length)
  have down: "downSpans depth [0..<?n] (childrenMap ix) t1 = Inr (Spans out)"
    using down0 len1 by simp
  have okc: "\<forall>k. \<forall>c\<in>set (childrenOf (childrenMap ix) k). c < length t1"
    by (simp add: buildIndex_children[OF ix] len1)
  have nosel: "\<forall>j. \<forall>t\<in>set (copiesOver [0..<?n] upSel upCopy ?T chs j). \<not> downSel t"
    by (auto dest: set_copiesOver)
  have "\<exists>vss. (\<forall>i\<in>set [0..<?n]. filter downSel (Tags (?T ! i)) \<noteq> [] \<longrightarrow>
                   dfsFrom (childrenMap ix) (map SpanID ?T) (childrenOf (childrenMap ix) (SpanID (?T ! i))) (vss i))
           \<and> extends t1 (Spans out) (copiesOver [0..<?n] downSel inheritFlags ?T vss)"
    by (rule downSpans_dfs[OF down okc _ _ e1 nosel]) (auto simp: len1)
  then have "\<exists>vss. (\<forall>i<?n. filter downSel (Tags (?T ! i)) \<noteq> [] \<longrightarrow>
                   dfsFrom (childrenMap ix) (map SpanID ?T) (childrenOf (childrenMap ix) (SpanID (?T ! i))) (vss i))
           \<and> extends t1 (Spans out) (copiesOver [0..<?n] downSel inheritFlags ?T vss)"
    by (simp add: Ball_def)
  then obtain vss where
    vss: "\<forall>i<?n. filter downSel (Tags (?T ! i)) \<noteq> [] \<longrightarrow>
                   dfsFrom (childrenMap ix) (map SpanID ?T) (childrenOf (childrenMap ix) (SpanID (?T ! i))) (vss i)"
    and e2: "extends t1 (Spans out) (copiesOver [0..<?n] downSel inheritFlags ?T vss)" by blast
  from extends_trans[OF e1 e2] ix chs vss st show ?thesis by blast
qed

lemma set_copiesOver_source:
  "t \<in> set (copiesOver is sel cp tbl targets j)
     \<Longrightarrow> \<exists>i\<in>set is. \<exists>u\<in>set (Tags (tbl ! i)). sel u \<and> t = cp u"
  by (auto simp: copiesOver_def)

section \<open>Stack traces\<close>

lemma copyStacks_char:
  "copyStacks ks src m = (\<lambda>k. if k \<in> set ks \<and> src k \<noteq> None then src k else m k)"
proof (induction ks arbitrary: m)
  case Nil
  show ?case by simp
next
  case (Cons k ks)
  show ?case by (auto simp: Cons.IH fun_eq_iff split: option.splits)
qed

lemma fillStacks_char:
  "fillStacks rs m g =
     (case m g of Some v \<Rightarrow> Some v
      | None \<Rightarrow> if g \<in> (\<lambda>s. sint (rs_GoroutineID s)) ` set rs then Some notFound else None)"
proof (induction rs arbitrary: m)
  case Nil
  show ?case by (simp split: option.splits)
next
  case (Cons s rs)
  show ?case by (auto simp: Cons.IH Let_def split: option.splits)
qed

section \<open>Sorting forgets the order of iteration\<close>




section \<open>The lock resolver\<close>

lemma findQuery_char:
  "findQuery tr = \<lparr>found = True,
     curQuery = (case find isQuerySpan tr of None \<Rightarrow> []
                 | Some q \<Rightarrow> tagIndex (rs_Tags q) ''statement'')\<rparr>"
  by (induction tr) (simp_all add: isQuerySpan_def)

lemma findTxnInTrace_char:
  "findTxnInTrace t tr rest =
     (if \<exists>s\<in>set rest. rs_Operation s = ''sql txn'' \<and> tagIndex (rs_Tags s) ''txn'' = t
      then Some (findQuery tr) else None)"
  by (induction rest) auto

lemma findTxnTraces_none:
  "\<forall>tr\<in>set trs. \<forall>s\<in>set tr. \<not> (rs_Operation s = ''sql txn'' \<and> tagIndex (rs_Tags s) ''txn'' = t)
     \<Longrightarrow> findTxnTraces t trs = \<lparr>found = False, curQuery = []\<rparr>"
  by (induction trs) (auto simp: findTxnInTrace_char)

lemma findTxnTraces_first:
  "\<forall>tr'\<in>set before. \<forall>s\<in>set tr'. \<not> (rs_Operation s = ''sql txn'' \<and> tagIndex (rs_Tags s) ''txn'' = t)
     \<Longrightarrow> \<exists>s\<in>set tr. rs_Operation s = ''sql txn'' \<and> tagIndex (rs_Tags s) ''txn'' = t
     \<Longrightarrow> findTxnTraces t (before @ tr # after) = findQuery tr"
  by (induction before) (auto simp: findTxnInTrace_char)

lemma findTxnTraces_found:
  "found (findTxnTraces t trs) \<longleftrightarrow>
     (\<exists>tr\<in>set trs. \<exists>s\<in>set tr. rs_Operation s = ''sql txn'' \<and> tagIndex (rs_Tags s) ''txn'' = t)"
  by (induction trs) (auto simp: findTxnInTrace_char findQuery_char)

lemma tagIndex_eq_Some: "t \<noteq> [] \<Longrightarrow> tagIndex m k = t \<longleftrightarrow> m k = Some t"
  by (auto simp: tagIndex_def split: option.splits)

section \<open>Walks on a cycle\<close>

lemma upwardsLoop_self_parent:
  assumes "spans k = Some p" and "ParentSpanID (tbl ! p) = k"
    and "\<forall>k p. spans k = Some p \<longrightarrow> p < length tbl"
  shows "upwardsLoop tag k spans tbl = None"
proof (rule ccontr)
  assume "upwardsLoop tag k spans tbl \<noteq> None"
  then obtain tbl' where "upwardsLoop tag k spans tbl = Some tbl'" by blast
  from upwardsLoop_chain[OF this assms(3)] obtain ch where
    ch: "chainFrom spans (map ParentSpanID tbl) k ch" by blast
  have p: "p < length tbl" using assms(1,3) by blast
  from ch assms(1) obtain ch' where
    "ch = p # ch'" "chainFrom spans (map ParentSpanID tbl) (map ParentSpanID tbl ! p) ch'"
    by (auto elim: chainFrom.cases)
  with assms(2) p have c1: "ch = p # ch'" and c2: "chainFrom spans (map ParentSpanID tbl) k ch'"
    by simp_all
  from chainFrom_det[OF ch c2] c1 show False by simp
qed

lemma downwardsLoop_error:
  "downwardsLoop depth tag cs children tbl = Inl e \<Longrightarrow> e = StackOverflow"
  by (induction depth tag cs children tbl rule: downwardsLoop.induct)
    (auto split: if_splits sum.splits)

lemma downwardsLoop_self_parent:
  assumes "childrenOf children (SpanID (tbl ! c)) = [c]" and "c < length tbl"
    and "inheritFlags tag = tag"
    and "\<forall>k. \<forall>c\<in>set (childrenOf children k). c < length tbl"
  shows "downwardsLoop depth tag [c] children tbl = Inl StackOverflow"
proof (cases "downwardsLoop depth tag [c] children tbl")
  case (Inl e)
  with downwardsLoop_error[OF Inl] show ?thesis by simp
next
  case (Inr tbl')
  have "\<forall>x\<in>set [c]. x < length tbl" using assms(2) by simp
  from downwardsLoop_dfs[OF Inr assms(3) this assms(4)] obtain vs where
    vs: "dfsFrom children (map SpanID tbl) [c] vs" by blast
  then obtain xs ys where
    "vs = c # xs @ ys" "dfsFrom children (map SpanID tbl) (childrenOf children (map SpanID tbl ! c)) xs"
    by (auto elim: dfsFrom.cases)
  with assms(1,2) have c1: "vs = c # xs @ ys" and c2: "dfsFrom children (map SpanID tbl) [c] xs"
    by simp_all
  from dfsFrom_det[OF vs c2] c1 have False by simp
  then show ?thesis ..
qed

section \<open>Walks without a cycle\<close>

lemma upwardsLoop_terminates_from:
  assumes wf: "wf (r\<inverse>)"
    and rel: "\<And>i j. i < n \<Longrightarrow> j < n \<Longrightarrow> ps ! i = ss ! j \<Longrightarrow> (i, j) \<in> r"
    and ok: "\<forall>k p. spans k = Some p \<longrightarrow> p < n \<and> ss ! p = k"
  shows "p < n \<Longrightarrow> length tbl = n \<Longrightarrow> map ParentSpanID tbl = ps
     \<Longrightarrow> \<exists>tbl'. upwardsLoop tag (ps ! p) spans tbl = Some tbl'"
  using wf
proof (induction p arbitrary: tbl rule: wf_induct_rule)
  case (less p)
  show ?case
  proof (cases "spans (ps ! p)")
    case None
    then show ?thesis by (subst upwardsLoop.simps) simp
  next
    case (Some q)
    let ?t = "appendTag q tag tbl"
    have q: "q < n" "ss ! q = ps ! p" using ok Some by auto
    have "(p, q) \<in> r" using less.prems(1) q by (intro rel) simp_all
    then have qp: "(q, p) \<in> r\<inverse>" by simp
    have len: "length ?t = n" using less.prems(2) by (simp add: appendTag_def)
    have par: "map ParentSpanID ?t = ps"
      using extends_parents[OF extends_appendTag] less.prems(3) by simp
    have "ParentSpanID (?t ! q) = ps ! q" using par q(1) len by (metis nth_map)
    moreover from less.IH[OF qp q(1) len par]
    obtain tbl' where "upwardsLoop tag (ps ! q) spans ?t = Some tbl'" by blast
    ultimately show ?thesis using Some by (subst upwardsLoop.simps) (simp add: Let_def)
  qed
qed

lemma upwardsLoop_terminates:
  assumes wf: "wf (r\<inverse>)"
    and rel: "\<And>i j. i < n \<Longrightarrow> j < n \<Longrightarrow> ps ! i = ss ! j \<Longrightarrow> (i, j) \<in> r"
    and ok: "\<forall>k p. spans k = Some p \<longrightarrow> p < n \<and> ss ! p = k"
    and len: "length tbl = n" and par: "map ParentSpanID tbl = ps"
  shows "\<exists>tbl'. upwardsLoop tag k spans tbl = Some tbl'"
proof (cases "spans k")
  case None
  then show ?thesis by (subst upwardsLoop.simps) simp
next
  case (Some q)
  let ?t = "appendTag q tag tbl"
  have q: "q < n" using ok Some by auto
  have len': "length ?t = n" using len by (simp add: appendTag_def)
  have par': "map ParentSpanID ?t = ps"
    using extends_parents[OF extends_appendTag] par by simp
  have "ParentSpanID (?t ! q) = ps ! q" using par' q len' by (metis nth_map)
  moreover from upwardsLoop_terminates_from[OF wf rel ok q len' par']
  obtain tbl' where "upwardsLoop tag (ps ! q) spans ?t = Some tbl'" by blast
  ultimately show ?thesis using Some by (subst upwardsLoop.simps) (simp add: Let_def)
qed

lemma upTags_terminates:
  assumes wf: "wf (r\<inverse>)"
    and rel: "\<And>i j. i < n \<Longrightarrow> j < n \<Longrightarrow> ps ! i = ss ! j \<Longrightarrow> (i, j) \<in> r"
    and ok: "\<forall>k p. spans k = Some p \<longrightarrow> p < n \<and> ss ! p = k"
  shows "length tbl = n \<Longrightarrow> map ParentSpanID tbl = ps
     \<Longrightarrow> \<exists>tbl'. upTags ts s spans tbl = Some tbl'"
proof (induction ts arbitrary: tbl)
  case Nil
  show ?case by simp
next
  case (Cons t ts)
  show ?case
  proof (cases "\<not> PropagateUp t \<or> CopiedFromChild t")
    case True
    with Cons.IH[OF Cons.prems] show ?thesis by simp
  next
    case False
    from upwardsLoop_terminates[OF wf rel ok Cons.prems]
    obtain t1 where t1: "upwardsLoop (upCopy t) (ParentSpanID s) spans tbl = Some t1" by blast
    have ok': "\<forall>k p. spans k = Some p \<longrightarrow> p < length tbl" using ok Cons.prems(1) by simp
    from upwardsLoop_chain[OF t1 ok'] obtain f where e: "extends tbl t1 f" by blast
    have "length t1 = n" "map ParentSpanID t1 = ps"
      using extends_length[OF e] extends_parents[OF e] Cons.prems by simp_all
    from Cons.IH[OF this] obtain tbl' where "upTags ts s spans t1 = Some tbl'" by blast
    with t1 False show ?thesis by (simp add: propagateTagUpwards_def upCopy_def)
  qed
qed

lemma upSpans_terminates:
  assumes wf: "wf (r\<inverse>)"
    and rel: "\<And>i j. i < n \<Longrightarrow> j < n \<Longrightarrow> ps ! i = ss ! j \<Longrightarrow> (i, j) \<in> r"
    and ok: "\<forall>k p. spans k = Some p \<longrightarrow> p < n \<and> ss ! p = k"
  shows "length tbl = n \<Longrightarrow> map ParentSpanID tbl = ps
     \<Longrightarrow> \<exists>tbl'. upSpans is spans tbl = Some tbl'"
proof (induction "is" arbitrary: tbl)
  case Nil
  show ?case by simp
next
  case (Cons i "is")
  let ?s = "tbl ! i"
  from upTags_terminates[OF wf rel ok Cons.prems]
  obtain t1 where t1: "upTags (Tags ?s) ?s spans tbl = Some t1" by blast
  have ok': "\<forall>k p. spans k = Some p \<longrightarrow> p < length tbl" using ok Cons.prems(1) by simp
  from upTags_chain[OF t1 ok'] obtain f where e: "extends tbl t1 f" by blast
  have "length t1 = n" "map ParentSpanID t1 = ps"
    using extends_length[OF e] extends_parents[OF e] Cons.prems by simp_all
  from Cons.IH[OF this] obtain tbl' where "upSpans is spans t1 = Some tbl'" by blast
  with t1 show ?case by (simp add: Let_def)
qed

text \<open>
  The downward recursion below a span \<open>c\<close>: \<open>pth\<close> lists \<open>c\<close> and the spans above it whose
  calls are on the stack. Without a cycle no span is on it twice, so it is never longer
  than the table, and a stack that admits one nested call for each span of the table
  is deep enough.
\<close>

lemma path_length:
  assumes "distinct pth" and "set pth \<subseteq> {..<n}"
  shows "length pth \<le> n"
proof -
  have "length pth = card (set pth)" using assms(1) by (simp add: distinct_card)
  also have "\<dots> \<le> card {..<n}" using assms(2) by (intro card_mono) simp_all
  finally show ?thesis by simp
qed

lemma downwardsLoop_returns:
  assumes acyc: "acyclic r"
    and rel: "\<And>i j. i < n \<Longrightarrow> j < n \<Longrightarrow> ps ! i = ss ! j \<Longrightarrow> (i, j) \<in> r"
    and okc: "\<forall>k. \<forall>c\<in>set (childrenOf children k). c < n \<and> ps ! c = k"
  shows "distinct pth \<Longrightarrow> set pth \<subseteq> {..<n} \<Longrightarrow> c \<in> set pth
     \<Longrightarrow> \<forall>a\<in>set pth. (c, a) \<in> r\<^sup>*
     \<Longrightarrow> n \<le> depth + length pth \<Longrightarrow> inheritFlags tag = tag
     \<Longrightarrow> length tbl = n \<Longrightarrow> map SpanID tbl = ss
     \<Longrightarrow> set cs \<subseteq> set (childrenOf children (ss ! c))
     \<Longrightarrow> \<exists>tbl'. downwardsLoop depth tag cs children tbl = Inr tbl'"
  using okc
proof (induction depth tag cs children tbl arbitrary: pth c rule: downwardsLoop.induct)
  case (1 depth tag children tbl)
  show ?case by simp
next
  case (2 depth tag d rest children tbl)
  from "2.prems" have okc: "\<forall>k. \<forall>c\<in>set (childrenOf children k). c < n \<and> ps ! c = k"
    and dist: "distinct pth" and sub: "set pth \<subseteq> {..<n}" and cin: "c \<in> set pth"
    and reach: "\<forall>a\<in>set pth. (c, a) \<in> r\<^sup>*" and deep: "n \<le> depth + length pth"
    and flag: "inheritFlags tag = tag" and ltbl: "length tbl = n" and stbl: "map SpanID tbl = ss"
    and dk: "d \<in> set (childrenOf children (ss ! c))"
    and rk: "set rest \<subseteq> set (childrenOf children (ss ! c))"
    by simp_all
  let ?t = "appendTag d tag tbl"
  let ?kids = "childrenOf children (SpanID (?t ! d))"
  have c: "c < n" using sub cin by auto
  have d: "d < n" and pd: "ps ! d = ss ! c" using okc dk by auto
  have dc: "(d, c) \<in> r" using d c pd by (rule rel)
  have dn: "d \<notin> set pth"
  proof
    assume "d \<in> set pth"
    then have "(c, d) \<in> r\<^sup>*" using reach by blast
    with dc have "(d, d) \<in> r\<^sup>+" by (rule rtrancl_into_trancl2)
    with acyc show False by (simp add: acyclic_def)
  qed
  have "length (d # pth) \<le> n"
    using dist sub dn d by (intro path_length) auto
  then have dep: "depth \<noteq> 0" using deep by simp
  have len: "length ?t = n" using ltbl by (simp add: appendTag_def)
  have ids: "map SpanID ?t = ss" using extends_ids[OF extends_appendTag] stbl by simp
  have sd: "SpanID (?t ! d) = ss ! d" using ids d len by (metis nth_map)
  have fl: "inheritFlags (inheritFlags tag) = inheritFlags tag" by simp
  have up: "\<forall>a\<in>set (d # pth). (d, a) \<in> r\<^sup>*"
    using dc reach by (auto intro: converse_rtrancl_into_rtrancl)
  have "\<exists>t2. downwardsLoop (depth - 1) (inheritFlags tag) ?kids children ?t = Inr t2"
  proof (rule "2.IH"(1)[OF dep, where pth = "d # pth" and c = d])
    show "distinct (d # pth)" using dist dn by simp
    show "set (d # pth) \<subseteq> {..<n}" using sub d by simp
    show "d \<in> set (d # pth)" by simp
    show "\<forall>a\<in>set (d # pth). (d, a) \<in> r\<^sup>*" by (rule up)
    show "n \<le> depth - 1 + length (d # pth)" using deep dep by simp
    show "set ?kids \<subseteq> set (childrenOf children (ss ! d))" by (simp add: sd)
  qed (rule okc fl len ids)+
  then obtain t2 where
    t2: "downwardsLoop (depth - 1) (inheritFlags tag) ?kids children ?t = Inr t2" by blast
  have b1: "\<forall>x\<in>set ?kids. x < length ?t" using okc len by simp
  have b2: "\<forall>k. \<forall>x\<in>set (childrenOf children k). x < length ?t" using okc len by simp
  from downwardsLoop_dfs[OF t2 fl b1 b2] obtain f where e: "extends ?t t2 f" by blast
  have len2: "length t2 = n" and ids2: "map SpanID t2 = ss"
    using extends_length[OF e] extends_ids[OF e] len ids by simp_all
  have "\<exists>tbl'. downwardsLoop depth tag rest children t2 = Inr tbl'"
    by (rule "2.IH"(2)[OF dep t2, where pth = pth and c = c])
      (rule okc dist sub cin reach deep flag len2 ids2 rk)+
  then obtain tbl' where "downwardsLoop depth tag rest children t2 = Inr tbl'" by blast
  with t2 dep show ?case by simp
qed

lemma downTags_returns:
  assumes acyc: "acyclic r"
    and rel: "\<And>i j. i < n \<Longrightarrow> j < n \<Longrightarrow> ps ! i = ss ! j \<Longrightarrow> (i, j) \<in> r"
    and okc: "\<forall>k. \<forall>c\<in>set (childrenOf children k). c < n \<and> ps ! c = k"
    and s: "SpanID s = ss ! i" "i < n"
    and dep: "n \<le> depth"
  shows "length tbl = n \<Longrightarrow> map SpanID tbl = ss
     \<Longrightarrow> \<exists>tbl'. downTags depth ts s children tbl = Inr tbl'"
proof (induction ts arbitrary: tbl)
  case Nil
  show ?case by simp
next
  case (Cons t ts)
  show ?case
  proof (cases "\<not> Inherit t \<or> Inherited t")
    case True
    with Cons.IH[OF Cons.prems] show ?thesis by simp
  next
    case False
    have d0: "depth \<noteq> 0" using dep s(2) by simp
    have "\<exists>t1. downwardsLoop (depth - 1) (inheritFlags t) (childrenOf children (ss ! i)) children tbl
        = Inr t1"
      using s(2) dep d0 Cons.prems
      by (intro downwardsLoop_returns[OF acyc rel okc, where pth = "[i]" and c = i]) auto
    then obtain t1 where
      t1: "downwardsLoop (depth - 1) (inheritFlags t) (childrenOf children (ss ! i)) children tbl
        = Inr t1"
      by blast
    have b1: "\<forall>x\<in>set (childrenOf children (ss ! i)). x < length tbl" using okc Cons.prems(1) by simp
    have b2: "\<forall>k. \<forall>x\<in>set (childrenOf children k). x < length tbl" using okc Cons.prems(1) by simp
    from downwardsLoop_dfs[OF t1 inheritFlags_idem b1 b2] obtain f where e: "extends tbl t1 f" by blast
    have "length t1 = n" "map SpanID t1 = ss"
      using extends_length[OF e] extends_ids[OF e] Cons.prems by simp_all
    from Cons.IH[OF this] obtain tbl' where "downTags depth ts s children t1 = Inr tbl'" by blast
    with t1 False s(1) d0 show ?thesis by (simp add: propagateInheritTagDownwards_def)
  qed
qed

lemma downSpans_returns:
  assumes acyc: "acyclic r"
    and rel: "\<And>i j. i < n \<Longrightarrow> j < n \<Longrightarrow> ps ! i = ss ! j \<Longrightarrow> (i, j) \<in> r"
    and okc: "\<forall>k. \<forall>c\<in>set (childrenOf children k). c < n \<and> ps ! c = k"
    and dep: "n \<le> depth"
  shows "\<forall>i\<in>set is. i < n \<Longrightarrow> length tbl = n \<Longrightarrow> map SpanID tbl = ss
     \<Longrightarrow> \<exists>tbl'. downSpans depth is children tbl = Inr tbl'"
proof (induction "is" arbitrary: tbl)
  case Nil
  show ?case by simp
next
  case (Cons i "is")
  let ?s = "tbl ! i"
  have i: "i < n" using Cons.prems(1) by simp
  have si: "SpanID ?s = ss ! i" using Cons.prems(2,3) i by (metis nth_map)
  from downTags_returns[OF acyc rel okc si i dep Cons.prems(2,3)]
  obtain t1 where t1: "downTags depth (Tags ?s) ?s children tbl = Inr t1" by blast
  have b: "\<forall>k. \<forall>x\<in>set (childrenOf children k). x < length tbl" using okc Cons.prems(2) by simp
  from downTags_dfs[OF t1 b] obtain f where e: "extends tbl t1 f" by blast
  have "length t1 = n" "map SpanID t1 = ss"
    using extends_length[OF e] extends_ids[OF e] Cons.prems by simp_all
  from Cons.IH[OF _ this] Cons.prems(1)
  obtain tbl' where "downSpans depth is children t1 = Inr tbl'" by auto
  with t1 show ?case by simp
qed

section \<open>Copies counted once\<close>

lemma count_list_distinct: "distinct xs \<Longrightarrow> count_list xs j = (if j \<in> set xs then 1 else 0)"
  by (induction xs) auto

lemma concat_replicate_once:
  "concat (map (\<lambda>t. replicate (if b then 1 else 0) (f t)) xs) = (if b then map f xs else [])"
  by (induction xs) auto

lemma chainFrom_bound:
  "chainFrom spans ps k ch \<Longrightarrow> \<forall>k p. spans k = Some p \<longrightarrow> p < n \<Longrightarrow> \<forall>j\<in>set ch. j < n"
  by (induction rule: chainFrom.induct) auto

lemma copiesOver_once:
  assumes "\<And>i. i \<in> set is \<Longrightarrow> filter sel (Tags (tbl ! i)) \<noteq> [] \<Longrightarrow> distinct (targets i)"
  shows "copiesOver is sel cp tbl targets j =
     concat (map (\<lambda>i. if j \<in> set (targets i) then map cp (filter sel (Tags (tbl ! i))) else []) is)"
proof -
  have "concat (map (\<lambda>t. replicate (count_list (targets i) j) (cp t)) (filter sel (Tags (tbl ! i))))
      = (if j \<in> set (targets i) then map cp (filter sel (Tags (tbl ! i))) else [])"
    if i: "i \<in> set is" for i
  proof (cases "filter sel (Tags (tbl ! i)) = []")
    case True
    then show ?thesis by simp
  next
    case False
    from assms[OF i False] have "count_list (targets i) j = (if j \<in> set (targets i) then 1 else 0)"
      by (rule count_list_distinct)
    then show ?thesis by (simp only: concat_replicate_once)
  qed
  then show ?thesis unfolding copiesOver_def by (auto intro!: arg_cong[where f = concat])
qed

text \<open>
  The tag list of an output span in three parts: the span's own tags, the copies from
  the upward pass, the copies from the downward pass; and what the two source tests and
  the two copy flags select from it.
\<close>

lemma output_tags_filters:
  assumes own: "\<forall>t\<in>set own. \<not> CopiedFromChild t \<and> \<not> Inherited t"
    and ups: "\<forall>t\<in>set ups. \<exists>u. \<not> CopiedFromChild u \<and> \<not> Inherited u \<and> t = upCopy u"
    and downs: "\<forall>t\<in>set downs. \<exists>u. \<not> CopiedFromChild u \<and> \<not> Inherited u \<and> t = inheritFlags u"
  shows "filter upSel (own @ ups @ downs) = filter upSel own"
    and "filter downSel (own @ ups @ downs) = filter downSel own"
    and "filter CopiedFromChild (own @ ups @ downs) = ups"
    and "filter Inherited (own @ ups @ downs) = downs"
proof -
  have u1: "filter upSel ups = []" "filter downSel ups = []" "filter CopiedFromChild ups = ups"
    "filter Inherited ups = []"
    using ups by (auto simp: filter_empty_conv filter_id_conv upCopy_def upSel_def downSel_def)
  have d1: "filter upSel downs = []" "filter downSel downs = []" "filter CopiedFromChild downs = []"
    "filter Inherited downs = downs"
    using downs by (auto simp: filter_empty_conv filter_id_conv inheritFlags_def upSel_def downSel_def)
  have o1: "filter CopiedFromChild own = []" "filter Inherited own = []"
    using own by (auto simp: filter_empty_conv)
  show "filter upSel (own @ ups @ downs) = filter upSel own" by (simp add: u1 d1)
  show "filter downSel (own @ ups @ downs) = filter downSel own" by (simp add: u1 d1)
  show "filter CopiedFromChild (own @ ups @ downs) = ups" by (simp add: u1 d1 o1)
  show "filter Inherited (own @ ups @ downs) = downs" by (simp add: u1 d1 o1)
qed

lemma ProcessSnapshot_parts:
  assumes "ProcessSnapshot ord depth snap = Some (Inr out)"
  shows "\<exists>ix chs vss. buildIndex ord snap = Inr ix
    \<and> length (Spans out) = length (processedSpans ix)
    \<and> map SpanID (Spans out) = map SpanID (processedSpans ix)
    \<and> map ParentSpanID (Spans out) = map ParentSpanID (processedSpans ix)
    \<and> (\<forall>i<length (Spans out). filter upSel (Tags (Spans out ! i)) \<noteq> [] \<longrightarrow>
          chainFrom (spansMap ix) (map ParentSpanID (Spans out)) (ParentSpanID (Spans out ! i)) (chs i))
    \<and> (\<forall>i<length (Spans out). filter downSel (Tags (Spans out ! i)) \<noteq> [] \<longrightarrow>
          dfsFrom (childrenMap ix) (map SpanID (Spans out))
            (childrenOf (childrenMap ix) (SpanID (Spans out ! i))) (vss i))
    \<and> (\<forall>j<length (Spans out).
          filter CopiedFromChild (Tags (Spans out ! j))
            = copiesOver [0..<length (Spans out)] upSel upCopy (Spans out) chs j
        \<and> filter Inherited (Tags (Spans out ! j))
            = copiesOver [0..<length (Spans out)] downSel inheritFlags (Spans out) vss j)"
proof -
  from ProcessSnapshot_shape[OF assms] obtain ix chs vss where
    ix: "buildIndex ord snap = Inr ix"
    and ch: "\<forall>i<length (processedSpans ix). filter upSel (Tags (processedSpans ix ! i)) \<noteq> [] \<longrightarrow>
          chainFrom (spansMap ix) (map ParentSpanID (processedSpans ix))
            (ParentSpanID (processedSpans ix ! i)) (chs i)"
    and vs: "\<forall>i<length (processedSpans ix). filter downSel (Tags (processedSpans ix ! i)) \<noteq> [] \<longrightarrow>
          dfsFrom (childrenMap ix) (map SpanID (processedSpans ix))
            (childrenOf (childrenMap ix) (SpanID (processedSpans ix ! i))) (vss i)"
    and e: "extends (processedSpans ix) (Spans out)
          (\<lambda>j. copiesOver [0..<length (processedSpans ix)] upSel upCopy (processedSpans ix) chs j
              @ copiesOver [0..<length (processedSpans ix)] downSel inheritFlags (processedSpans ix) vss j)"
    by blast
  let ?T = "processedSpans ix"
  let ?n = "length ?T"
  let ?O = "Spans out"
  let ?ups = "copiesOver [0..<?n] upSel upCopy ?T chs"
  let ?downs = "copiesOver [0..<?n] downSel inheritFlags ?T vss"
  have len: "length ?O = ?n" using e by (rule extends_length)
  have ids: "map SpanID ?O = map SpanID ?T" using e by (rule extends_ids)
  have par: "map ParentSpanID ?O = map ParentSpanID ?T" using e by (rule extends_parents)
  have n: "?n = length (concat (snap_Traces snap))" using buildIndex_char(1)[OF ix] .
  have own: "\<forall>t\<in>set (Tags (?T ! i)). \<not> CopiedFromChild t \<and> \<not> Inherited t" if "i < ?n" for i
    using buildIndex_fields(3)[OF ix] that n by simp
  have ups: "\<forall>t\<in>set (?ups j). \<exists>u. \<not> CopiedFromChild u \<and> \<not> Inherited u \<and> t = upCopy u" for j
  proof
    fix t assume "t \<in> set (?ups j)"
    from set_copiesOver_source[OF this] obtain i u where
      "i < ?n" "u \<in> set (Tags (?T ! i))" "t = upCopy u" by auto
    with own[of i] show "\<exists>u. \<not> CopiedFromChild u \<and> \<not> Inherited u \<and> t = upCopy u" by blast
  qed
  have downs: "\<forall>t\<in>set (?downs j). \<exists>u. \<not> CopiedFromChild u \<and> \<not> Inherited u \<and> t = inheritFlags u" for j
  proof
    fix t assume "t \<in> set (?downs j)"
    from set_copiesOver_source[OF this] obtain i u where
      "i < ?n" "u \<in> set (Tags (?T ! i))" "t = inheritFlags u" by auto
    with own[of i] show "\<exists>u. \<not> CopiedFromChild u \<and> \<not> Inherited u \<and> t = inheritFlags u" by blast
  qed
  have tags: "Tags (?O ! j) = Tags (?T ! j) @ ?ups j @ ?downs j" if "j < ?n" for j
    using extends_Tags[OF e that] .
  note f = output_tags_filters[OF own ups downs]
  have selu: "filter upSel (Tags (?O ! i)) = filter upSel (Tags (?T ! i))" if "i < ?n" for i
    using f(1)[OF that] tags[OF that] by simp
  have seld: "filter downSel (Tags (?O ! i)) = filter downSel (Tags (?T ! i))" if "i < ?n" for i
    using f(2)[OF that] tags[OF that] by simp
  have cu: "copiesOver [0..<?n] upSel upCopy ?O chs j = ?ups j" for j
    unfolding copiesOver_def by (rule arg_cong[where f = concat]) (simp add: selu)
  have cd: "copiesOver [0..<?n] downSel inheritFlags ?O vss j = ?downs j" for j
    unfolding copiesOver_def by (rule arg_cong[where f = concat]) (simp add: seld)
  have pi: "ParentSpanID (?O ! i) = ParentSpanID (?T ! i)" if "i < ?n" for i
    using par that len by (metis nth_map)
  have si: "SpanID (?O ! i) = SpanID (?T ! i)" if "i < ?n" for i
    using ids that len by (metis nth_map)
  have a: "\<forall>i<length ?O. filter upSel (Tags (?O ! i)) \<noteq> [] \<longrightarrow>
          chainFrom (spansMap ix) (map ParentSpanID ?O) (ParentSpanID (?O ! i)) (chs i)"
    using ch by (simp add: len par selu pi)
  have b: "\<forall>i<length ?O. filter downSel (Tags (?O ! i)) \<noteq> [] \<longrightarrow>
          dfsFrom (childrenMap ix) (map SpanID ?O)
            (childrenOf (childrenMap ix) (SpanID (?O ! i))) (vss i)"
    using vs by (simp add: len ids seld si)
  have c: "\<forall>j<length ?O.
          filter CopiedFromChild (Tags (?O ! j)) = copiesOver [0..<length ?O] upSel upCopy ?O chs j
        \<and> filter Inherited (Tags (?O ! j)) = copiesOver [0..<length ?O] downSel inheritFlags ?O vss j"
  proof (intro allI impI)
    fix j assume "j < length ?O"
    then have j: "j < ?n" using len by simp
    show "filter CopiedFromChild (Tags (?O ! j)) = copiesOver [0..<length ?O] upSel upCopy ?O chs j
        \<and> filter Inherited (Tags (?O ! j)) = copiesOver [0..<length ?O] downSel inheritFlags ?O vss j"
      using f(3,4)[OF j] by (simp add: tags[OF j] len cu cd)
  qed
  from ix len ids par a b c show ?thesis by blast
qed

section \<open>The spans that the downward recursion visits\<close>

lemma dfsFrom_roots: "dfsFrom children ids cs vs \<Longrightarrow> set cs \<subseteq> set vs"
  by (induction rule: dfsFrom.induct) auto

lemma dfsFrom_closed:
  "dfsFrom children ids cs vs \<Longrightarrow> m \<in> set vs
     \<Longrightarrow> set (childrenOf children (ids ! m)) \<subseteq> set vs"
proof (induction rule: dfsFrom.induct)
  case dfs_done
  then show ?case by simp
next
  case (dfs_child c xs rest ys)
  from dfs_child.prems consider "m = c" | "m \<in> set xs" | "m \<in> set ys" by auto
  then show ?case
  proof cases
    case 1
    with dfsFrom_roots[OF dfs_child.hyps(1)] show ?thesis by auto
  next
    case 2
    from dfs_child.IH(1)[OF this] show ?thesis by auto
  next
    case 3
    from dfs_child.IH(2)[OF this] show ?thesis by auto
  qed
qed

lemma dfsFrom_reach_closed:
  assumes "dfsFrom children ids cs vs" and "m \<in> set vs" and "(m, j) \<in> (childRel children ids)\<^sup>*"
  shows "j \<in> set vs"
  using assms(3,2)
proof (induction rule: rtrancl_induct)
  case base
  then show ?case .
next
  case (step y z)
  then have "y \<in> set vs" by simp
  from dfsFrom_closed[OF assms(1) this] step.hyps(2) show ?case
    by (auto simp: childRel_def)
qed

lemma dfsFrom_visits:
  assumes "dfsFrom children ids cs vs"
    and "\<forall>c\<in>set cs. c < length ids"
    and "\<forall>k. \<forall>c\<in>set (childrenOf children k). c < length ids"
  shows "set vs = {j. \<exists>c\<in>set cs. (c, j) \<in> (childRel children ids)\<^sup>*}"
proof
  show "{j. \<exists>c\<in>set cs. (c, j) \<in> (childRel children ids)\<^sup>*} \<subseteq> set vs"
    using dfsFrom_reach_closed[OF assms(1)] dfsFrom_roots[OF assms(1)] by blast
next
  show "set vs \<subseteq> {j. \<exists>c\<in>set cs. (c, j) \<in> (childRel children ids)\<^sup>*}"
    using assms
  proof (induction rule: dfsFrom.induct)
    case dfs_done
    then show ?case by simp
  next
    case (dfs_child c xs rest ys)
    let ?R = "childRel children ids"
    have c: "c < length ids" using dfs_child.prems(1) by simp
    have "set xs \<subseteq> {j. \<exists>d\<in>set (childrenOf children (ids ! c)). (d, j) \<in> ?R\<^sup>*}"
      using dfs_child.IH(1) dfs_child.prems(2) by blast
    moreover have "(c, d) \<in> ?R" if "d \<in> set (childrenOf children (ids ! c))" for d
      using that c by (simp add: childRel_def)
    ultimately have x: "set xs \<subseteq> {j. (c, j) \<in> ?R\<^sup>*}"
      by (auto intro: converse_rtrancl_into_rtrancl)
    have y: "set ys \<subseteq> {j. \<exists>c\<in>set rest. (c, j) \<in> ?R\<^sup>*}"
      using dfs_child.IH(2) dfs_child.prems by simp
    from x y show ?case by auto
  qed
qed

lemma childRel_parent:
  assumes sv: "single_valued ((childRel children ids)\<inverse>)"
    and "(c, d) \<in> childRel children ids" and "(e, d) \<in> (childRel children ids)\<^sup>*" and "e \<noteq> d"
  shows "(e, c) \<in> (childRel children ids)\<^sup>*"
proof -
  from assms(3,4) obtain m where m: "(e, m) \<in> (childRel children ids)\<^sup>*" "(m, d) \<in> childRel children ids"
    by (auto elim: rtranclE)
  from sv assms(2) m(2) have "m = c" by (auto simp: single_valued_def)
  with m(1) show ?thesis by simp
qed

lemma dfsFrom_distinct:
  assumes "dfsFrom children ids cs vs"
    and "distinct cs"
    and "\<forall>c\<in>set cs. c < length ids"
    and "\<forall>k. \<forall>c\<in>set (childrenOf children k). c < length ids"
    and "\<forall>k. distinct (childrenOf children k)"
    and "single_valued ((childRel children ids)\<inverse>)"
    and "\<forall>c\<in>set cs. \<forall>c'\<in>set cs. c \<noteq> c' \<longrightarrow> (c, c') \<notin> (childRel children ids)\<^sup>*"
  shows "distinct vs"
  using assms
proof (induction rule: dfsFrom.induct)
  case dfs_done
  then show ?case by simp
next
  case (dfs_child c xs rest ys)
  let ?R = "childRel children ids"
  let ?kids = "childrenOf children (ids ! c)"
  note sv = dfs_child.prems(5)
  have c: "c < length ids" using dfs_child.prems(2) by simp
  have kb: "\<forall>d\<in>set ?kids. d < length ids" using dfs_child.prems(3) by blast
  have cx: "c \<notin> set xs" using dfs_child.hyps(1) by (rule dfsFrom_not_self)
  have edge: "(c, d) \<in> ?R" if "d \<in> set ?kids" for d
    using that c by (simp add: childRel_def)
  have anti: "\<forall>d\<in>set ?kids. \<forall>d'\<in>set ?kids. d \<noteq> d' \<longrightarrow> (d, d') \<notin> ?R\<^sup>*"
  proof (intro ballI impI notI)
    fix d d' assume d: "d \<in> set ?kids" and d': "d' \<in> set ?kids" and ne: "d \<noteq> d'"
      and r: "(d, d') \<in> ?R\<^sup>*"
    from childRel_parent[OF sv edge[OF d'] r ne] have "(d, c) \<in> ?R\<^sup>*" .
    moreover have "d \<in> set xs" using dfsFrom_roots[OF dfs_child.hyps(1)] d by blast
    ultimately have "c \<in> set xs" using dfsFrom_reach_closed[OF dfs_child.hyps(1)] by blast
    with cx show False by simp
  qed
  have dx: "distinct xs"
    using dfs_child.prems(3,4) kb anti sv by (intro dfs_child.IH(1)) simp_all
  have dy: "distinct ys"
    using dfs_child.prems by (intro dfs_child.IH(2)) simp_all
  have xs: "set xs = {j. \<exists>d\<in>set ?kids. (d, j) \<in> ?R\<^sup>*}"
    using dfsFrom_visits[OF dfs_child.hyps(1) kb dfs_child.prems(3)] .
  have ys: "set ys = {j. \<exists>c'\<in>set rest. (c', j) \<in> ?R\<^sup>*}"
    using dfsFrom_visits[OF dfs_child.hyps(2) _ dfs_child.prems(3)] dfs_child.prems(2) by simp
  have cy: "c \<notin> set ys"
  proof
    assume "c \<in> set ys"
    with ys obtain c' where "c' \<in> set rest" "(c', c) \<in> ?R\<^sup>*" by blast
    moreover from this(1) dfs_child.prems(1) have "c' \<noteq> c" by auto
    ultimately show False using dfs_child.prems(6) by auto
  qed
  have disj: "set xs \<inter> set ys = {}"
  proof (rule ccontr)
    assume "set xs \<inter> set ys \<noteq> {}"
    then obtain j where jx: "j \<in> set xs" and jy: "j \<in> set ys" by blast
    from jx xs obtain d where "d \<in> set ?kids" "(d, j) \<in> ?R\<^sup>*" by blast
    with edge have cj: "(c, j) \<in> ?R\<^sup>*" by (auto intro: converse_rtrancl_into_rtrancl)
    from jy ys obtain c' where c': "c' \<in> set rest" and c'j: "(c', j) \<in> ?R\<^sup>*" by blast
    have ne: "c' \<noteq> c" using c' dfs_child.prems(1) by auto
    have "(j, c) \<in> (?R\<inverse>)\<^sup>*" "(j, c') \<in> (?R\<inverse>)\<^sup>*"
      using cj c'j by (simp_all add: rtrancl_converse)
    from single_valued_confluent[OF sv this]
    have "(c, c') \<in> (?R\<inverse>)\<^sup>* \<or> (c', c) \<in> (?R\<inverse>)\<^sup>*" .
    then have "(c', c) \<in> ?R\<^sup>* \<or> (c, c') \<in> ?R\<^sup>*" by (simp add: rtrancl_converse)
    with ne c' dfs_child.prems(6) show False by auto
  qed
  from dx dy cx cy disj show ?case by simp
qed

lemma dfsFrom_children_distinct:
  assumes d: "dfsFrom children ids (childrenOf children (ids ! i)) vs"
    and i: "i < length ids"
    and kb: "\<forall>k. \<forall>c\<in>set (childrenOf children k). c < length ids"
    and kd: "\<forall>k. distinct (childrenOf children k)"
    and sv: "single_valued ((childRel children ids)\<inverse>)"
  shows "distinct vs" and "set vs = {j. (i, j) \<in> (childRel children ids)\<^sup>+}"
proof -
  let ?R = "childRel children ids"
  let ?kids = "childrenOf children (ids ! i)"
  have edge: "(i, c) \<in> ?R" if "c \<in> set ?kids" for c
    using that i by (simp add: childRel_def)
  have iv: "i \<notin> set vs" using d by (rule dfsFrom_not_self)
  have anti: "\<forall>c\<in>set ?kids. \<forall>c'\<in>set ?kids. c \<noteq> c' \<longrightarrow> (c, c') \<notin> ?R\<^sup>*"
  proof (intro ballI impI notI)
    fix c c' assume c: "c \<in> set ?kids" and c': "c' \<in> set ?kids" and ne: "c \<noteq> c'"
      and r: "(c, c') \<in> ?R\<^sup>*"
    from childRel_parent[OF sv edge[OF c'] r ne] have "(c, i) \<in> ?R\<^sup>*" .
    moreover have "c \<in> set vs" using dfsFrom_roots[OF d] c by blast
    ultimately have "i \<in> set vs" using dfsFrom_reach_closed[OF d] by blast
    with iv show False by simp
  qed
  have kbi: "\<forall>c\<in>set ?kids. c < length ids" using kb by blast
  show "distinct vs"
    using kd kbi kb sv anti by (intro dfsFrom_distinct[OF d]) simp_all
  have "set vs = {j. \<exists>c\<in>set ?kids. (c, j) \<in> ?R\<^sup>*}"
    using dfsFrom_visits[OF d kbi kb] .
  also have "\<dots> = {j. (i, j) \<in> ?R\<^sup>+}"
  proof (intro set_eqI iffI; clarify)
    fix j c assume "c \<in> set ?kids" "(c, j) \<in> ?R\<^sup>*"
    with edge show "(i, j) \<in> ?R\<^sup>+" by (auto intro: rtrancl_into_trancl2)
  next
    fix j assume "(i, j) \<in> ?R\<^sup>+"
    then obtain c where "(i, c) \<in> ?R" "(c, j) \<in> ?R\<^sup>*" by (auto dest: tranclD)
    then show "\<exists>c\<in>set ?kids. (c, j) \<in> ?R\<^sup>*" by (auto simp: childRel_def)
  qed
  finally show "set vs = {j. (i, j) \<in> ?R\<^sup>+}" .
qed

lemma childRel_table:
  assumes "\<forall>k. childrenOf children k = filter (\<lambda>j. ParentSpanID (tbl ! j) = k) [0..<length tbl]"
  shows "childRel children (map SpanID tbl) =
     {(m, j). m < length tbl \<and> j < length tbl \<and> ParentSpanID (tbl ! j) = SpanID (tbl ! m)}"
  by (auto simp: childRel_def assms)

lemma descendantOf_bound: "descendantOf tbl i j \<Longrightarrow> j < length tbl"
  by (auto elim: descendantOf.cases)

lemma descendantOf_trancl:
  assumes "i < length tbl"
  shows "descendantOf tbl i j \<longleftrightarrow>
     (i, j) \<in> {(m, j). m < length tbl \<and> j < length tbl \<and> ParentSpanID (tbl ! j) = SpanID (tbl ! m)}\<^sup>+"
    (is "_ \<longleftrightarrow> (i, j) \<in> ?R\<^sup>+")
proof
  assume "descendantOf tbl i j"
  then show "(i, j) \<in> ?R\<^sup>+"
  proof (induction rule: descendantOf.induct)
    case (desc_child j)
    with assms have "(i, j) \<in> ?R" by simp
    then show ?case by (rule r_into_trancl)
  next
    case (desc_step k j)
    have "k < length tbl" using desc_step.hyps(1) by (rule descendantOf_bound)
    with desc_step.hyps(2,3) have "(k, j) \<in> ?R" by simp
    with desc_step.IH show ?case by (rule trancl_into_trancl)
  qed
next
  assume "(i, j) \<in> ?R\<^sup>+"
  then show "descendantOf tbl i j"
  proof (induction rule: trancl_induct)
    case (base y)
    then show ?case by (auto intro: desc_child)
  next
    case (step y z)
    then show ?case by (auto intro: desc_step)
  qed
qed

lemma childRel_single_valued:
  assumes "\<forall>k. childrenOf children k = filter (\<lambda>j. ParentSpanID (tbl ! j) = k) [0..<length tbl]"
    and "distinct (map SpanID tbl)"
  shows "single_valued ((childRel children (map SpanID tbl))\<inverse>)"
proof (rule single_valuedI)
  fix j m m'
  assume "(j, m) \<in> (childRel children (map SpanID tbl))\<inverse>"
    and "(j, m') \<in> (childRel children (map SpanID tbl))\<inverse>"
  then have m: "m < length tbl" "m' < length tbl"
    and "SpanID (tbl ! m) = SpanID (tbl ! m')"
    by (auto simp: childRel_table[OF assms(1)])
  then have eq: "map SpanID tbl ! m = map SpanID tbl ! m'" by simp
  from assms(2) have "(map SpanID tbl ! m = map SpanID tbl ! m') = (m = m')"
    by (rule nth_eq_iff_index_eq) (simp_all add: m)
  with eq show "m = m'" by (simp only:)
qed

lemma dfsFrom_children_visits:
  assumes d: "dfsFrom children ids (childrenOf children (ids ! i)) vs"
    and i: "i < length ids"
    and kb: "\<forall>k. \<forall>c\<in>set (childrenOf children k). c < length ids"
  shows "set vs = {j. (i, j) \<in> (childRel children ids)\<^sup>+}"
proof -
  let ?R = "childRel children ids"
  let ?kids = "childrenOf children (ids ! i)"
  have edge: "(i, c) \<in> ?R" if "c \<in> set ?kids" for c
    using that i by (simp add: childRel_def)
  have kbi: "\<forall>c\<in>set ?kids. c < length ids" using kb by blast
  have "set vs = {j. \<exists>c\<in>set ?kids. (c, j) \<in> ?R\<^sup>*}"
    using dfsFrom_visits[OF d kbi kb] .
  also have "\<dots> = {j. (i, j) \<in> ?R\<^sup>+}"
  proof (intro set_eqI iffI; clarify)
    fix j c assume "c \<in> set ?kids" "(c, j) \<in> ?R\<^sup>*"
    with edge show "(i, j) \<in> ?R\<^sup>+" by (auto intro: rtrancl_into_trancl2)
  next
    fix j assume "(i, j) \<in> ?R\<^sup>+"
    then obtain c where "(i, c) \<in> ?R" "(c, j) \<in> ?R\<^sup>*" by (auto dest: tranclD)
    then show "\<exists>c\<in>set ?kids. (c, j) \<in> ?R\<^sup>*" by (auto simp: childRel_def)
  qed
  finally show ?thesis .
qed

lemma copiesOver_member:
  assumes "i \<in> set is" and "T \<in> set (filter sel (Tags (tbl ! i)))" and "j \<in> set (targets i)"
  shows "cp T \<in> set (copiesOver is sel cp tbl targets j)"
proof -
  have "count_list (targets i) j \<noteq> 0" using assms(3) by (simp add: count_list_0_iff)
  then have "cp T \<in> set (replicate (count_list (targets i) j) (cp T))" by simp
  with assms(1,2) show ?thesis unfolding copiesOver_def by (auto intro!: bexI[of _ i] bexI[of _ T])
qed

section \<open>Runs that return\<close>

lemma processTag_succeeds:
  "k = ''lock_holder_txn'' \<longrightarrow> 8 \<le> length v \<Longrightarrow> \<exists>p. processTag k v snap = Inr p"
  by (auto simp: processTag_def Let_def)

lemma processTags_succeeds:
  "\<forall>k\<in>set ks. k = ''lock_holder_txn'' \<longrightarrow> 8 \<le> length (tagIndex m k)
     \<Longrightarrow> \<exists>ts. processTags ks m snap = Inr ts"
proof (induction ks)
  case Nil
  show ?case by simp
next
  case (Cons k ks)
  from Cons.prems obtain p where "processTag k (tagIndex m k) snap = Inr p"
    using processTag_succeeds[of k "tagIndex m k" snap] by auto
  moreover from Cons obtain ts where "processTags ks m snap = Inr ts" by auto
  ultimately show ?case by simp
qed

lemma processSpan_succeeds:
  assumes "set ks = dom (rs_Tags s)"
    and "\<forall>v. rs_Tags s ''lock_holder_txn'' = Some v \<longrightarrow> 8 \<le> length v"
  shows "\<exists>p. processSpan ks s snap = Inr p"
proof -
  have "\<forall>k\<in>set (sort ks). k = ''lock_holder_txn'' \<longrightarrow> 8 \<le> length (tagIndex (rs_Tags s) k)"
    using assms by (auto simp: tagIndex_def split: option.splits)
  from processTags_succeeds[OF this] obtain ts where
    "processTags (sort ks) (rs_Tags s) snap = Inr ts" by blast
  then show ?thesis by (simp add: processSpan_def)
qed

lemma indexSpans_succeeds:
  "(\<And>j. i \<le> j \<Longrightarrow> j < i + length rest \<Longrightarrow> \<exists>p. processSpan (ord j) (rest ! (j - i)) snap = Inr p)
     \<Longrightarrow> \<exists>ix'. indexSpans ord snap i rest ix = Inr ix'"
proof (induction rest arbitrary: i ix)
  case Nil
  show ?case by simp
next
  case (Cons s rest)
  from Cons.prems[of i] obtain p where p: "processSpan (ord i) s snap = Inr p" by auto
  have "\<exists>q. processSpan (ord j) (rest ! (j - Suc i)) snap = Inr q"
    if "Suc i \<le> j" "j < Suc i + length rest" for j
    using Cons.prems[of j] that by (simp add: nth_Cons')
  from Cons.IH[OF this] p show ?case by simp
qed

lemma buildIndex_succeeds:
  assumes "validOrder ord snap" and "noShortTxn snap"
  shows "\<exists>ix. buildIndex ord snap = Inr ix"
  unfolding buildIndex_def Let_def
proof (rule indexSpans_succeeds)
  fix j assume "0 \<le> j" and j: "j < 0 + length (concat (snap_Traces snap))"
  let ?s = "concat (snap_Traces snap) ! (j - 0)"
  have "set (tagOrder ord j) = dom (rs_Tags ?s)"
    using assms(1) j by (simp add: validOrder_def)
  moreover have "\<forall>v. rs_Tags ?s ''lock_holder_txn'' = Some v \<longrightarrow> 8 \<le> length v"
    using assms(2) j unfolding noShortTxn_def by (metis add_0 diff_zero nth_mem)
  ultimately show "\<exists>p. processSpan (tagOrder ord j) ?s snap = Inr p"
    by (rule processSpan_succeeds)
qed

text \<open>
  The two passes on the table of a snapshot without a cycle: the upward pass returns,
  and the downward pass returns when the stack admits a nested call for each span.
\<close>

lemma passes_return:
  assumes acyc: "acyclic (parentRel snap)" and ix: "buildIndex ord snap = Inr ix"
  shows "\<exists>t1. upSpans [0..<length (processedSpans ix)] (spansMap ix) (processedSpans ix) = Some t1
     \<and> length t1 = length (processedSpans ix)
     \<and> (length (concat (snap_Traces snap)) \<le> depth \<longrightarrow>
          (\<exists>t2. downSpans depth [0..<length t1] (childrenMap ix) t1 = Inr t2))"
proof -
  let ?rs = "concat (snap_Traces snap)"
  let ?r = "parentRel snap"
  let ?T = "processedSpans ix"
  let ?n = "length ?T"
  let ?ps = "map ParentSpanID ?T"
  let ?ss = "map SpanID ?T"
  have "?r \<subseteq> {..<length ?rs} \<times> {..<length ?rs}" by (auto simp: parentRel_def)
  then have fin: "finite ?r" by (rule finite_subset) simp
  have wfc: "wf (?r\<inverse>)" using fin acyc by (rule finite_acyclic_wf_converse)
  have n: "?n = length ?rs" using buildIndex_char(1)[OF ix] .
  have rel: "(i, j) \<in> ?r" if "i < ?n" "j < ?n" "?ps ! i = ?ss ! j" for i j
    using that n buildIndex_fields(1,2)[OF ix] by (simp add: parentRel_def)
  have ok: "\<forall>k p. spansMap ix k = Some p \<longrightarrow> p < ?n \<and> ?ss ! p = k"
    using buildIndex_spansMap_range[OF ix] by auto
  have okc: "\<forall>k. \<forall>c\<in>set (childrenOf (childrenMap ix) k). c < ?n \<and> ?ps ! c = k"
    by (simp add: buildIndex_children[OF ix])
  from upSpans_terminates[OF wfc rel ok refl refl]
  obtain t1 where t1: "upSpans [0..<?n] (spansMap ix) ?T = Some t1" by blast
  have ok': "\<forall>k p. spansMap ix k = Some p \<longrightarrow> p < ?n" using ok by blast
  have "\<exists>chs. (\<forall>i\<in>set [0..<?n]. filter upSel (Tags (?T ! i)) \<noteq> [] \<longrightarrow>
                 chainFrom (spansMap ix) (map ParentSpanID ?T) (ParentSpanID (?T ! i)) (chs i))
         \<and> extends ?T t1 (copiesOver [0..<?n] upSel upCopy ?T chs)"
    by (rule upSpans_chains[OF t1 ok' _ _ extends_refl]) auto
  then obtain f where e: "extends ?T t1 f" by blast
  have l1: "length t1 = ?n" and s1: "map SpanID t1 = ?ss"
    using extends_length[OF e] extends_ids[OF e] by simp_all
  have "\<exists>t2. downSpans depth [0..<length t1] (childrenMap ix) t1 = Inr t2"
    if dep: "length ?rs \<le> depth"
  proof -
    have "\<forall>i\<in>set [0..<?n]. i < ?n" by simp
    moreover have "?n \<le> depth" using dep n by simp
    ultimately have "\<exists>t2. downSpans depth [0..<?n] (childrenMap ix) t1 = Inr t2"
      using l1 s1 by (intro downSpans_returns[OF acyc rel okc])
    then show ?thesis by (simp add: l1)
  qed
  with t1 l1 show ?thesis by blast
qed

lemma ProcessSnapshot_returns:
  assumes "validOrder ord snap" and "noShortTxn snap" and "acyclic (parentRel snap)"
    and "length (concat (snap_Traces snap)) \<le> depth"
  shows "\<exists>out. ProcessSnapshot ord depth snap = Some (Inr out)"
proof -
  from buildIndex_succeeds[OF assms(1,2)] obtain ix where ix: "buildIndex ord snap = Inr ix"
    by blast
  from passes_return[OF assms(3) ix, of depth] assms(4) obtain t1 t2 where
    "upSpans [0..<length (processedSpans ix)] (spansMap ix) (processedSpans ix) = Some t1"
    "downSpans depth [0..<length t1] (childrenMap ix) t1 = Inr t2"
    by blast
  with ix show ?thesis by (simp add: ProcessSnapshot_def)
qed

section \<open>The run on the example snapshot\<close>

lemmas example_defs = exampleSnapshot_def exampleOrder_def exampleOrder'_def exampleTag_def
  exampleSpans_def exampleOutput_def mkSpan_def exampleDepth_def

lemmas run_defs = ProcessSnapshot_def buildIndex_def processSpan_def processTag_def
  findTxnState_def tagIndex_def hiddenTags_def zeroSpan_def propagateTagUpwards_def
  propagateInheritTagDownwards_def appendTag_def childrenOf_def inheritFlags_def
  upwardsLoop.simps Let_def

lemma example_run: "ProcessSnapshot exampleOrder exampleDepth exampleSnapshot = Some (Inr exampleOutput)"
  by (simp add: example_defs run_defs upt_rec)

lemma example_run': "ProcessSnapshot exampleOrder' exampleDepth exampleSnapshot = Some (Inr exampleOutput)"
  by (simp add: example_defs run_defs upt_rec)

lemma validOrder_example: "validOrder exampleOrder exampleSnapshot"
  by (simp add: validOrder_def example_defs All_less_Suc)


lemma cycle_index: "buildIndex cycleOrder cycleSnapshot = Inr cycleIndex"
  by (simp add: buildIndex_def cycleOrder_def cycleSnapshot_def cycleIndex_def mkSpan_def
      exampleTag_def processSpan_def processTag_def tagIndex_def hiddenTags_def zeroSpan_def)

lemma cycle_up: "upSpans [0..<1] (spansMap cycleIndex) (processedSpans cycleIndex) = None"
proof -
  have "upwardsLoop tag 1 (spansMap cycleIndex) (processedSpans cycleIndex) = None" for tag
    by (rule upwardsLoop_self_parent[where p = 0]) (simp_all add: cycleIndex_def)
  then show ?thesis
    by (simp add: propagateTagUpwards_def cycleIndex_def exampleTag_def Let_def)
qed

lemma cycle_down:
  "downSpans depth [0..<1] (childrenMap cycleIndex) (processedSpans cycleIndex) = Inl StackOverflow"
proof -
  let ?T = "processedSpans cycleIndex" and ?C = "childrenMap cycleIndex"
  obtain t where t: "Tags (?T ! 0) = [t]" "Inherit t" "\<not> Inherited t"
    by (simp add: cycleIndex_def exampleTag_def)
  have ch: "childrenOf ?C (SpanID (?T ! 0)) = [0]"
    by (simp add: cycleIndex_def childrenOf_def)
  have "downwardsLoop d (inheritFlags t) [0] ?C ?T = Inl StackOverflow" for d
    by (rule downwardsLoop_self_parent) (simp_all add: cycleIndex_def childrenOf_def inheritFlags_def)
  then have "propagateInheritTagDownwards depth t (?T ! 0) ?C ?T = Inl StackOverflow"
    by (simp add: propagateInheritTagDownwards_def ch del: downwardsLoop.simps)
  then have "downTags depth (Tags (?T ! 0)) (?T ! 0) ?C ?T = Inl StackOverflow"
    using t by simp
  then show ?thesis by (simp del: downTags.simps)
qed

lemma cycle_run: "ProcessSnapshot cycleOrder depth cycleSnapshot = None"
  using cycle_index cycle_up by (simp add: ProcessSnapshot_def cycleIndex_def)

lemma short_run:
  "ProcessSnapshot shortTxnOrder depth shortTxnSnapshot = Some (Inl SliceBoundsOutOfRange)"
  by (simp add: ProcessSnapshot_def buildIndex_def shortTxnOrder_def shortTxnSnapshot_def
      mkSpan_def processSpan_def processTag_def tagIndex_def Let_def)

lemma dup_run: "ProcessSnapshot dupOrder exampleDepth dupSnapshot = Some (Inr dupOutput)"
  by (simp add: dupSnapshot_def dupOrder_def dupOutput_def dupInherited_def exampleTag_def
      mkSpan_def exampleDepth_def run_defs upt_rec)

lemma parentRel_example: "acyclic (parentRel exampleSnapshot)"
proof (rule acyclicI_order[where f = id])
  fix a b assume "(a, b) \<in> parentRel exampleSnapshot"
  then have "a < 5" "b < 5"
    and eq: "rs_ParentSpanID (concat (snap_Traces exampleSnapshot) ! a)
       = rs_SpanID (concat (snap_Traces exampleSnapshot) ! b)"
    by (simp_all add: parentRel_def exampleSnapshot_def)
  then have "a = 0 \<or> a = 1 \<or> a = 2 \<or> a = 3 \<or> a = 4"
    and "b = 0 \<or> b = 1 \<or> b = 2 \<or> b = 3 \<or> b = 4"
    by arith+
  with eq show "id b < id a"
    by (auto simp: exampleSnapshot_def mkSpan_def)
qed


lemma noShortTxn_example: "noShortTxn exampleSnapshot"
  by (simp add: noShortTxn_def exampleSnapshot_def mkSpan_def)

lemma example_depth: "length (concat (snap_Traces exampleSnapshot)) \<le> exampleDepth"
  by (simp add: exampleSnapshot_def exampleDepth_def)

section \<open>The truncation of \<open>lock_holder_txn\<close>\<close>

lemma processTag_short_lock_holder:
  "length v < 8 \<Longrightarrow> processTag ''lock_holder_txn'' v snap = Inl SliceBoundsOutOfRange"
  by (simp add: processTag_def)

text \<open>
  C2. The claim: a \<open>lock_holder_txn\<close> tag of any length is enriched without a fault, its
  value cut to at most 8 bytes. The code slices \<open>v[:8]\<close> without a guard: on the value
  \<open>abc\<close> \<open>processTag\<close> panics, and so does \<open>ProcessSnapshot\<close> on a snapshot that has a span
  with this tag.
\<close>

theorem C2_short_lock_holder_txn_panics:
  "processTag ''lock_holder_txn'' ''abc'' snap = Inl SliceBoundsOutOfRange
   \<and> ProcessSnapshot shortTxnOrder depth shortTxnSnapshot = Some (Inl SliceBoundsOutOfRange)"
  by (simp add: processTag_def ProcessSnapshot_def buildIndex_def shortTxnSnapshot_def shortTxnOrder_def
      mkSpan_def processSpan_def tagIndex_def)

section \<open>The frame of the passes\<close>

text \<open>
  C9. The identity fields of every processed span (operation, trace id, span id, parent
  span id, start time, goroutine id) are those of the raw span at the same position of
  the flattened snapshot; the output has one span per raw span; and each output span is
  the span that the first loop stored in the table, with a tag list that extends the
  stored one: the passes after the first loop change nothing but the tag lists.
\<close>

theorem C9_identity_fields_unchanged:
  assumes "ProcessSnapshot ord depth snap = Some (Inr out)"
  shows "length (Spans out) = length (concat (snap_Traces snap))
    \<and> (\<forall>j<length (Spans out).
          Operation (Spans out ! j) = rs_Operation (concat (snap_Traces snap) ! j)
        \<and> TraceID (Spans out ! j) = rs_TraceID (concat (snap_Traces snap) ! j)
        \<and> SpanID (Spans out ! j) = rs_SpanID (concat (snap_Traces snap) ! j)
        \<and> ParentSpanID (Spans out ! j) = rs_ParentSpanID (concat (snap_Traces snap) ! j)
        \<and> Start (Spans out ! j) = rs_StartTime (concat (snap_Traces snap) ! j)
        \<and> GoroutineID (Spans out ! j) = rs_GoroutineID (concat (snap_Traces snap) ! j))
    \<and> (\<exists>ix. buildIndex ord snap = Inr ix
          \<and> (\<forall>j<length (Spans out). \<exists>copies.
                Spans out ! j = (processedSpans ix ! j)\<lparr>Tags := Tags (processedSpans ix ! j) @ copies\<rparr>))"
proof -
  let ?rs = "concat (snap_Traces snap)"
  from ProcessSnapshot_shape[OF assms] obtain ix f where
    ix: "buildIndex ord snap = Inr ix" and e: "extends (processedSpans ix) (Spans out) f"
    by blast
  have len: "length (Spans out) = length ?rs"
    using extends_length[OF e] buildIndex_char(1)[OF ix] by simp
  have at: "Spans out ! j = (processedSpans ix ! j)\<lparr>Tags := Tags (processedSpans ix ! j) @ f j\<rparr>"
    if "j < length (Spans out)" for j
    using e that by (simp add: extends_def)
  have fields: "Operation (Spans out ! j) = rs_Operation (?rs ! j)
        \<and> TraceID (Spans out ! j) = rs_TraceID (?rs ! j)
        \<and> SpanID (Spans out ! j) = rs_SpanID (?rs ! j)
        \<and> ParentSpanID (Spans out ! j) = rs_ParentSpanID (?rs ! j)
        \<and> Start (Spans out ! j) = rs_StartTime (?rs ! j)
        \<and> GoroutineID (Spans out ! j) = rs_GoroutineID (?rs ! j)"
    if j: "j < length (Spans out)" for j
  proof -
    have "processSpan (tagOrder ord j) (?rs ! j) snap = Inr (processedSpans ix ! j)"
      using buildIndex_char(2)[OF ix] j len by simp
    from processSpan_fields(1-6)[OF this] at[OF j] show ?thesis by simp
  qed
  from len fields ix at show ?thesis by blast
qed

theorem C9_identity_fields_unchanged_witness:
  "ProcessSnapshot exampleOrder exampleDepth exampleSnapshot = Some (Inr exampleOutput)
   \<and> map SpanID (Spans exampleOutput) = map rs_SpanID (concat (snap_Traces exampleSnapshot))
   \<and> map GoroutineID (Spans exampleOutput) = map rs_GoroutineID (concat (snap_Traces exampleSnapshot))"
proof -
  from C9_identity_fields_unchanged[OF example_run]
  have "length (Spans exampleOutput) = length (concat (snap_Traces exampleSnapshot))"
    and "\<forall>j<length (Spans exampleOutput).
           SpanID (Spans exampleOutput ! j) = rs_SpanID (concat (snap_Traces exampleSnapshot) ! j)
         \<and> GoroutineID (Spans exampleOutput ! j) = rs_GoroutineID (concat (snap_Traces exampleSnapshot) ! j)"
    by blast+
  then have "map SpanID (Spans exampleOutput) = map rs_SpanID (concat (snap_Traces exampleSnapshot))"
    and "map GoroutineID (Spans exampleOutput) = map rs_GoroutineID (concat (snap_Traces exampleSnapshot))"
    by (auto intro!: nth_equalityI)
  with example_run show ?thesis by blast
qed

section \<open>The stack map\<close>

text \<open>The stack map of a run that returns.\<close>

lemma stacks_of_run:
  assumes "ProcessSnapshot ord depth snap = Some (Inr out)"
    and "set (stackOrder ord) = dom (snap_Stacks snap)"
  shows "(\<forall>p\<in>set (Spans out). sint (GoroutineID p) \<in> dom (Stacks out))
    \<and> (\<forall>g v. snap_Stacks snap g = Some v \<longrightarrow> Stacks out g = Some v)
    \<and> (\<forall>g. snap_Stacks snap g = None \<longrightarrow>
          Stacks out g = (if \<exists>p\<in>set (Spans out). sint (GoroutineID p) = g
                          then Some notFound else None))"
proof -
  let ?rs = "concat (snap_Traces snap)"
  let ?gids = "(\<lambda>s. sint (rs_GoroutineID s)) ` set ?rs"
  from ProcessSnapshot_shape[OF assms(1)] obtain ix f where
    ix: "buildIndex ord snap = Inr ix" and e: "extends (processedSpans ix) (Spans out) f"
    and st: "Stacks out = fillStacks ?rs (copyStacks (stackOrder ord) (snap_Stacks snap) Map.empty)"
    by blast
  have copy: "copyStacks (stackOrder ord) (snap_Stacks snap) Map.empty = snap_Stacks snap"
    using assms(2) by (auto simp: copyStacks_char fun_eq_iff)
  have out: "Stacks out g =
     (case snap_Stacks snap g of Some v \<Rightarrow> Some v
      | None \<Rightarrow> if g \<in> ?gids then Some notFound else None)" for g
    by (simp add: st copy fillStacks_char)
  have len: "length (Spans out) = length ?rs"
    using extends_length[OF e] buildIndex_char(1)[OF ix] by simp
  have gid: "GoroutineID (Spans out ! j) = rs_GoroutineID (?rs ! j)" if j: "j < length ?rs" for j
  proof -
    have "processSpan (tagOrder ord j) (?rs ! j) snap = Inr (processedSpans ix ! j)"
      using buildIndex_char(2)[OF ix j] .
    from processSpan_fields(6)[OF this] e j len show ?thesis by (simp add: extends_def)
  qed
  have m: "map GoroutineID (Spans out) = map rs_GoroutineID ?rs"
    using len gid by (auto intro!: nth_equalityI)
  have "map sint (map GoroutineID (Spans out)) = map sint (map rs_GoroutineID ?rs)"
    by (simp only: m)
  then have "set (map (\<lambda>p. sint (GoroutineID p)) (Spans out)) = set (map (\<lambda>s. sint (rs_GoroutineID s)) ?rs)"
    by (simp add: comp_def)
  then have gids: "(\<lambda>p. sint (GoroutineID p)) ` set (Spans out) = ?gids" by simp
  have ref: "(\<exists>p\<in>set (Spans out). sint (GoroutineID p) = g) \<longleftrightarrow> g \<in> ?gids" for g
  proof -
    have "(\<exists>p\<in>set (Spans out). sint (GoroutineID p) = g)
        \<longleftrightarrow> g \<in> (\<lambda>p. sint (GoroutineID p)) ` set (Spans out)" by blast
    then show ?thesis by (simp only: gids)
  qed
  have a: "\<forall>p\<in>set (Spans out). sint (GoroutineID p) \<in> dom (Stacks out)"
  proof
    fix p assume "p \<in> set (Spans out)"
    then have "sint (GoroutineID p) \<in> ?gids" using gids by blast
    then show "sint (GoroutineID p) \<in> dom (Stacks out)"
      by (auto simp: out dom_def split: option.splits)
  qed
  have b: "\<forall>g v. snap_Stacks snap g = Some v \<longrightarrow> Stacks out g = Some v"
    by (simp add: out)
  have c: "\<forall>g. snap_Stacks snap g = None \<longrightarrow>
          Stacks out g = (if \<exists>p\<in>set (Spans out). sint (GoroutineID p) = g
                          then Some notFound else None)"
    by (simp add: out ref)
  from a b c show ?thesis by blast
qed

text \<open>
  C8. The claim speaks of every input snapshot. On the snapshot of one span that names
  itself as its parent, with a \<open>statement\<close> tag and a goroutine id, \<open>ProcessSnapshot\<close> does
  not return, and on the snapshot with a \<open>lock_holder_txn\<close> value of three bytes it
  panics: in neither run is there an output stack map.
\<close>

theorem C8_no_stack_map_counterexample:
  "(\<forall>depth. ProcessSnapshot cycleOrder depth cycleSnapshot = None)
   \<and> validOrder cycleOrder cycleSnapshot
   \<and> map rs_GoroutineID (concat (snap_Traces cycleSnapshot)) = [10]
   \<and> (\<forall>depth. ProcessSnapshot shortTxnOrder depth shortTxnSnapshot
         = Some (Inl SliceBoundsOutOfRange))
   \<and> validOrder shortTxnOrder shortTxnSnapshot
   \<and> map rs_GoroutineID (concat (snap_Traces shortTxnSnapshot)) = [7]"
  using cycle_run short_run
  by (simp add: validOrder_def cycleOrder_def cycleSnapshot_def shortTxnOrder_def
      shortTxnSnapshot_def mkSpan_def)

text \<open>
  C8, as the code has it. The key of a goroutine id in the stack map is the id converted
  to \<open>int\<close>, as the code converts it, and the keys that \<open>range snapshot.Stacks\<close> yields are
  the keys of the map, each once. For every run of \<open>ProcessSnapshot\<close> that returns an output: every
  goroutine id of a processed span has an entry in the output stack map; every entry of
  the raw stack map is there with its text; and a key outside the raw stack map holds
  the placeholder when a processed span refers to it and has no entry when none does.
  The run returns an output whenever the parent relation of the snapshot has no cycle,
  no \<open>lock_holder_txn\<close> value is shorter than 8 bytes, and the stack admits one nested
  call of \<open>propagateInheritTagDownwards\<close> for each span.
\<close>

theorem C8_stack_completeness:
  assumes "set (stackOrder ord) = dom (snap_Stacks snap)"
  shows "(\<forall>out. ProcessSnapshot ord depth snap = Some (Inr out) \<longrightarrow>
            (\<forall>p\<in>set (Spans out). sint (GoroutineID p) \<in> dom (Stacks out))
          \<and> (\<forall>g v. snap_Stacks snap g = Some v \<longrightarrow> Stacks out g = Some v)
          \<and> (\<forall>g. snap_Stacks snap g = None \<longrightarrow>
                Stacks out g = (if \<exists>p\<in>set (Spans out). sint (GoroutineID p) = g
                                then Some notFound else None)))
    \<and> (validOrder ord snap \<and> noShortTxn snap \<and> acyclic (parentRel snap)
         \<and> length (concat (snap_Traces snap)) \<le> depth \<longrightarrow>
          (\<exists>out. ProcessSnapshot ord depth snap = Some (Inr out)))"
proof -
  have "\<exists>out. ProcessSnapshot ord depth snap = Some (Inr out)"
    if "validOrder ord snap" "noShortTxn snap" "acyclic (parentRel snap)"
      "length (concat (snap_Traces snap)) \<le> depth"
    using ProcessSnapshot_returns[OF that] .
  with stacks_of_run[OF _ assms] show ?thesis by blast
qed

theorem C8_stack_completeness_witness:
  "set (stackOrder exampleOrder) = dom (snap_Stacks exampleSnapshot)
   \<and> validOrder exampleOrder exampleSnapshot \<and> noShortTxn exampleSnapshot
   \<and> acyclic (parentRel exampleSnapshot)
   \<and> length (concat (snap_Traces exampleSnapshot)) \<le> exampleDepth
   \<and> (\<exists>out. ProcessSnapshot exampleOrder exampleDepth exampleSnapshot = Some (Inr out)
         \<and> Stacks out 10 = Some ''main''
         \<and> Stacks out 11 = Some notFound
         \<and> Stacks out 13 = None)"
proof -
  have h: "set (stackOrder exampleOrder) = dom (snap_Stacks exampleSnapshot)"
    by (simp add: exampleOrder_def exampleSnapshot_def)
  note main = C8_stack_completeness[OF h, of exampleDepth]
  from main validOrder_example noShortTxn_example parentRel_example example_depth
  obtain out where run: "ProcessSnapshot exampleOrder exampleDepth exampleSnapshot = Some (Inr out)"
    by blast
  then have out: "out = exampleOutput" using example_run by simp
  have s: "snap_Stacks exampleSnapshot 10 = Some ''main''"
    "snap_Stacks exampleSnapshot 11 = None" "snap_Stacks exampleSnapshot 13 = None"
    by (simp_all add: exampleSnapshot_def)
  have r: "\<exists>p\<in>set (Spans out). sint (GoroutineID p) = 11"
    "\<not> (\<exists>p\<in>set (Spans out). sint (GoroutineID p) = 13)"
    by (simp_all add: out exampleOutput_def exampleSpans_def)
  from main run have a: "\<forall>g v. snap_Stacks exampleSnapshot g = Some v \<longrightarrow> Stacks out g = Some v"
    and b: "\<forall>g. snap_Stacks exampleSnapshot g = None \<longrightarrow>
                Stacks out g = (if \<exists>p\<in>set (Spans out). sint (GoroutineID p) = g
                                then Some notFound else None)"
    by blast+
  from a s(1) have "Stacks out 10 = Some ''main''" by blast
  moreover from b s(2) r(1) have "Stacks out 11 = Some notFound" by simp
  moreover from b s(3) r(2) have "Stacks out 13 = None" by simp
  ultimately show ?thesis
    using run h validOrder_example noShortTxn_example parentRel_example example_depth by blast
qed

section \<open>Independence of the order of map iteration\<close>



section \<open>The flags of the upward copy\<close>




section \<open>The order of the tags\<close>

text \<open>
  C4. The claim: in the output every tag list is sorted by key, the appended copies
  included. On the example snapshot the transaction span (entry 0) ends with the keys
  \<open>txn\<close>, \<open>statement\<close>: the copy of the \<open>statement\<close> tag was appended after the span's own
  \<open>txn\<close> tag.
\<close>

theorem C4_tags_sorted_counterexample:
  "ProcessSnapshot exampleOrder exampleDepth exampleSnapshot = Some (Inr exampleOutput)
   \<and> map Key (Tags (Spans exampleOutput ! 0)) = [''txn'', ''statement'']
   \<and> \<not> sorted (map Key (Tags (Spans exampleOutput ! 0)))"
  using example_run by (simp add: exampleOutput_def exampleSpans_def exampleTag_def)

text \<open>
  C4, as the code has it. Only \<open>processSpan\<close> sorts. In the output of a run that returns,
  the tag list of every span is the list of the span's own tags, sorted by key
  ascending (their keys are the sorted keys of the raw tag map), followed by the copies
  that the two passes appended, in the order in which they were appended. The own tags
  are those with neither \<open>CopiedFromChild\<close> nor \<open>Inherited\<close> set.
\<close>

theorem C4_own_tags_sorted:
  assumes "ProcessSnapshot ord depth snap = Some (Inr out)"
  shows "\<forall>j<length (Spans out). \<exists>own copies.
           Tags (Spans out ! j) = own @ copies
         \<and> sorted (map Key own)
         \<and> map Key own = sort (tagOrder ord j)
         \<and> own = filter (\<lambda>t. \<not> CopiedFromChild t \<and> \<not> Inherited t) (Tags (Spans out ! j))
         \<and> (\<forall>t\<in>set copies. CopiedFromChild t \<or> Inherited t)"
proof (intro allI impI)
  fix j assume j: "j < length (Spans out)"
  let ?rs = "concat (snap_Traces snap)"
  from ProcessSnapshot_shape[OF assms] obtain ix chs vss where
    ix: "buildIndex ord snap = Inr ix"
    and e: "extends (processedSpans ix) (Spans out)
          (\<lambda>j. copiesOver [0..<length (processedSpans ix)] upSel upCopy (processedSpans ix) chs j
              @ copiesOver [0..<length (processedSpans ix)] downSel inheritFlags (processedSpans ix) vss j)"
    by blast
  let ?T = "processedSpans ix"
  let ?n = "length ?T"
  let ?own = "Tags (?T ! j)"
  let ?copies = "copiesOver [0..<?n] upSel upCopy ?T chs j @ copiesOver [0..<?n] downSel inheritFlags ?T vss j"
  have jn: "j < ?n" using j extends_length[OF e] by simp
  have jr: "j < length ?rs" using jn buildIndex_char(1)[OF ix] by simp
  have ps: "processSpan (tagOrder ord j) (?rs ! j) snap = Inr (?T ! j)"
    using buildIndex_char(2)[OF ix jr] .
  have keys: "map Key ?own = sort (tagOrder ord j)" using processSpan_fields(7)[OF ps] .
  have own: "\<forall>t\<in>set ?own. \<not> CopiedFromChild t \<and> \<not> Inherited t"
    using processSpan_fields(8)[OF ps] .
  have copies: "\<forall>t\<in>set ?copies. CopiedFromChild t \<or> Inherited t"
    by (auto dest!: set_copiesOver_source simp: upCopy_def inheritFlags_def)
  have tags: "Tags (Spans out ! j) = ?own @ ?copies" using extends_Tags[OF e jn] .
  have f1: "filter (\<lambda>t. \<not> CopiedFromChild t \<and> \<not> Inherited t) ?own = ?own"
    using own by (simp add: filter_id_conv)
  have f2: "filter (\<lambda>t. \<not> CopiedFromChild t \<and> \<not> Inherited t) ?copies = []"
    using copies by (simp only: filter_empty_conv) blast
  have filt: "?own = filter (\<lambda>t. \<not> CopiedFromChild t \<and> \<not> Inherited t) (Tags (Spans out ! j))"
  proof -
    have "filter (\<lambda>t. \<not> CopiedFromChild t \<and> \<not> Inherited t) (Tags (Spans out ! j))
        = filter (\<lambda>t. \<not> CopiedFromChild t \<and> \<not> Inherited t) ?own
          @ filter (\<lambda>t. \<not> CopiedFromChild t \<and> \<not> Inherited t) ?copies"
      unfolding tags by (rule filter_append)
    also have "\<dots> = ?own" unfolding f1 f2 by (rule append_Nil2)
    finally show ?thesis by (rule sym)
  qed
  have "sorted (map Key ?own)" by (simp add: keys)
  with tags keys filt copies
  show "\<exists>own copies.
           Tags (Spans out ! j) = own @ copies
         \<and> sorted (map Key own)
         \<and> map Key own = sort (tagOrder ord j)
         \<and> own = filter (\<lambda>t. \<not> CopiedFromChild t \<and> \<not> Inherited t) (Tags (Spans out ! j))
         \<and> (\<forall>t\<in>set copies. CopiedFromChild t \<or> Inherited t)"
    by blast
qed

theorem C4_own_tags_sorted_witness:
  "ProcessSnapshot exampleOrder exampleDepth exampleSnapshot = Some (Inr exampleOutput)
   \<and> (4::nat) < length (Spans exampleOutput)
   \<and> sorted (map Key (filter (\<lambda>t. \<not> CopiedFromChild t \<and> \<not> Inherited t)
                        (Tags (Spans exampleOutput ! 4))))
   \<and> map Key (filter (\<lambda>t. \<not> CopiedFromChild t \<and> \<not> Inherited t)
                        (Tags (Spans exampleOutput ! 4))) = [''lock_holder_txn'', ''node'']"
proof -
  have l: "(4::nat) < length (Spans exampleOutput)"
    by (simp add: exampleOutput_def exampleSpans_def)
  from C4_own_tags_sorted[OF example_run] l
  have "sorted (map Key (filter (\<lambda>t. \<not> CopiedFromChild t \<and> \<not> Inherited t)
                        (Tags (Spans exampleOutput ! 4))))"
    by metis
  moreover have "map Key (filter (\<lambda>t. \<not> CopiedFromChild t \<and> \<not> Inherited t)
                        (Tags (Spans exampleOutput ! 4))) = [''lock_holder_txn'', ''node'']"
    by (simp add: exampleOutput_def exampleSpans_def exampleTag_def)
  ultimately show ?thesis using example_run l by blast
qed

section \<open>The caption of a lock holder\<close>

text \<open>
  C5. The claim: once the transaction span is found, the caption names the running
  query whenever the trace has a \<open>sql query\<close> span, and is \<open>blocked on idle txn\<close> only
  when it has none. On a trace whose query span has no \<open>statement\<close> tag the caption is
  \<open>blocked on idle txn\<close>.
\<close>

theorem C5_caption_counterexample:
  "map_sum id Caption (processTag ''lock_holder_txn'' ''0123456789'' bareQuerySnapshot)
     = Inr ''blocked on idle txn''
   \<and> isTxnSpan ''0123456789'' (snap_Traces bareQuerySnapshot ! 0 ! 0)
   \<and> isQuerySpan (snap_Traces bareQuerySnapshot ! 0 ! 1)"
  by (simp add: processTag_def findTxnState_def bareQuerySnapshot_def mkSpan_def tagIndex_def
      isTxnSpan_def isQuerySpan_def Let_def)

text \<open>
  C5, as the code has it. For a \<open>lock_holder_txn\<close> tag with transaction id \<open>t\<close> that is
  enriched without a panic: the caption is \<open>blocked on unknown transaction\<close> exactly when
  no span of the snapshot is the span of \<open>t\<close>. Otherwise, in the first trace that has
  such a span, the first span with operation \<open>sql query\<close> decides, whether or not it is
  below the transaction span: when it exists and its \<open>statement\<close> tag is not empty, the
  caption is \<open>blocked on txn currently running query: \<close> followed by that statement;
  when the trace has no query span, or the first one has no statement or an empty one,
  the caption is \<open>blocked on idle txn\<close>.
\<close>

theorem C5_lock_holder_caption:
  assumes "processTag ''lock_holder_txn'' t snap = Inr p"
  shows "(Caption p = ''blocked on unknown transaction''
            \<longleftrightarrow> \<not> (\<exists>tr\<in>set (snap_Traces snap). \<exists>s\<in>set tr. isTxnSpan t s))
    \<and> (\<forall>before tr after.
          snap_Traces snap = before @ tr # after
          \<and> (\<forall>tr'\<in>set before. \<forall>s\<in>set tr'. \<not> isTxnSpan t s)
          \<and> (\<exists>s\<in>set tr. isTxnSpan t s)
          \<longrightarrow> Caption p =
                (case find isQuerySpan tr of
                   None \<Rightarrow> ''blocked on idle txn''
                 | Some q \<Rightarrow>
                     if tagIndex (rs_Tags q) ''statement'' = [] then ''blocked on idle txn''
                     else ''blocked on txn currently running query: ''
                            @ tagIndex (rs_Tags q) ''statement''))"
proof -
  from assms have len: "\<not> length t < 8"
    by (auto simp: processTag_def split: if_splits)
  then have ne: "t \<noteq> []" by auto
  have txn: "(rs_Operation s = ''sql txn'' \<and> tagIndex (rs_Tags s) ''txn'' = t) \<longleftrightarrow> isTxnSpan t s" for s
    by (simp add: isTxnSpan_def tagIndex_eq_Some[OF ne])
  let ?st = "findTxnTraces t (snap_Traces snap)"
  have cap: "Caption p =
      (if \<not> found ?st then ''blocked on unknown transaction''
       else if curQuery ?st \<noteq> [] then ''blocked on txn currently running query: '' @ curQuery ?st
       else ''blocked on idle txn'')"
    using assms len by (auto simp: processTag_def findTxnState_def Let_def)
  have found: "found ?st \<longleftrightarrow> (\<exists>tr\<in>set (snap_Traces snap). \<exists>s\<in>set tr. isTxnSpan t s)"
    by (simp add: findTxnTraces_found txn)
  have a: "Caption p = ''blocked on unknown transaction''
            \<longleftrightarrow> \<not> (\<exists>tr\<in>set (snap_Traces snap). \<exists>s\<in>set tr. isTxnSpan t s)"
    unfolding found[symmetric] by (simp add: cap)
  have b: "Caption p =
                (case find isQuerySpan tr of
                   None \<Rightarrow> ''blocked on idle txn''
                 | Some q \<Rightarrow>
                     if tagIndex (rs_Tags q) ''statement'' = [] then ''blocked on idle txn''
                     else ''blocked on txn currently running query: ''
                            @ tagIndex (rs_Tags q) ''statement'')"
    if tr: "snap_Traces snap = before @ tr # after"
      and nb: "\<forall>tr'\<in>set before. \<forall>s\<in>set tr'. \<not> isTxnSpan t s"
      and ex: "\<exists>s\<in>set tr. isTxnSpan t s"
    for before tr after
  proof -
    have "?st = findQuery tr"
      unfolding tr using nb ex by (intro findTxnTraces_first) (simp_all add: txn)
    then show ?thesis by (simp add: cap findQuery_char split: option.splits)
  qed
  from a b show ?thesis by blast
qed

theorem C5_lock_holder_caption_witness:
  "processTag ''lock_holder_txn'' ''0123456789'' exampleSnapshot = Inr (Tags (exampleSpans ! 4) ! 0)
   \<and> Caption (Tags (exampleSpans ! 4) ! 0) = ''blocked on txn currently running query: SELECT 1''
   \<and> (\<exists>tr\<in>set (snap_Traces exampleSnapshot). \<exists>s\<in>set tr. isTxnSpan ''0123456789'' s)"
proof -
  have r: "processTag ''lock_holder_txn'' ''0123456789'' exampleSnapshot = Inr (Tags (exampleSpans ! 4) ! 0)"
    by (simp add: processTag_def findTxnState_def example_defs tagIndex_def hiddenTags_def Let_def)
  have c: "Caption (Tags (exampleSpans ! 4) ! 0) = ''blocked on txn currently running query: SELECT 1''"
    by (simp add: example_defs)
  then have "Caption (Tags (exampleSpans ! 4) ! 0) \<noteq> ''blocked on unknown transaction''" by simp
  with C5_lock_holder_caption[OF r]
  have "\<exists>tr\<in>set (snap_Traces exampleSnapshot). \<exists>s\<in>set tr. isTxnSpan ''0123456789'' s"
    by blast
  with r c show ?thesis by blast
qed

section \<open>Termination of the two walks\<close>

text \<open>
  C3. The claim: on a snapshot whose parent ids form a cycle, a cycle guard stops the
  upward walk and the downward recursion. The code has no such guard. On the snapshot
  of one span that names itself as its parent and has a \<open>statement\<close> tag,
  \<open>ProcessSnapshot\<close> does not return: on the table that the first loop builds from it
  the upward pass appends copies for ever, and the downward pass, run on the same table,
  recurses until the stack overflows, whatever the size of the stack.
\<close>

theorem C3_cycle_counterexample:
  "(\<forall>depth. ProcessSnapshot cycleOrder depth cycleSnapshot = None)
   \<and> buildIndex cycleOrder cycleSnapshot = Inr cycleIndex
   \<and> upSpans [0..<1] (spansMap cycleIndex) (processedSpans cycleIndex) = None
   \<and> (\<forall>depth. downSpans depth [0..<1] (childrenMap cycleIndex) (processedSpans cycleIndex)
         = Inl StackOverflow)"
  using cycle_run cycle_index cycle_up cycle_down by (intro conjI allI)

text \<open>
  C3, as the code has it. Neither walk has a cycle guard, and the downward recursion
  takes a stack frame for each level. On a snapshot whose parent relation has no cycle
  (no span is its own parent, directly or through other spans), \<open>ProcessSnapshot\<close> does
  not run for ever: it returns, panics in \<open>processTag\<close> or overflows the stack. When the
  first loop has built its table, the upward pass returns on it, and the downward pass
  returns on the result if the stack admits one nested call of
  \<open>propagateInheritTagDownwards\<close> for each span of the snapshot. If moreover no
  \<open>lock_holder_txn\<close> value is shorter than 8 bytes, \<open>ProcessSnapshot\<close> returns an
  output.
\<close>

theorem C3_terminates_without_cycle:
  assumes "acyclic (parentRel snap)"
  shows "(\<exists>res. ProcessSnapshot ord depth snap = Some res)
    \<and> (\<forall>ix. buildIndex ord snap = Inr ix \<longrightarrow>
          (\<exists>t1. upSpans [0..<length (processedSpans ix)] (spansMap ix) (processedSpans ix) = Some t1
              \<and> (length (concat (snap_Traces snap)) \<le> depth \<longrightarrow>
                   (\<exists>t2. downSpans depth [0..<length t1] (childrenMap ix) t1 = Inr t2))))
    \<and> (validOrder ord snap \<and> noShortTxn snap \<and> length (concat (snap_Traces snap)) \<le> depth \<longrightarrow>
          (\<exists>out. ProcessSnapshot ord depth snap = Some (Inr out)))"
proof -
  have passes: "\<exists>t1. upSpans [0..<length (processedSpans ix)] (spansMap ix) (processedSpans ix) = Some t1
              \<and> (length (concat (snap_Traces snap)) \<le> depth \<longrightarrow>
                   (\<exists>t2. downSpans depth [0..<length t1] (childrenMap ix) t1 = Inr t2))"
    if ix: "buildIndex ord snap = Inr ix" for ix
    using passes_return[OF assms ix, of depth] by blast
  have "\<exists>res. ProcessSnapshot ord depth snap = Some res"
  proof (cases "buildIndex ord snap")
    case (Inl e)
    then show ?thesis by (simp add: ProcessSnapshot_def)
  next
    case (Inr ix)
    from passes[OF Inr] obtain t1 where
      "upSpans [0..<length (processedSpans ix)] (spansMap ix) (processedSpans ix) = Some t1"
      by blast
    with Inr show ?thesis by (simp add: ProcessSnapshot_def split: sum.splits)
  qed
  moreover have "\<exists>out. ProcessSnapshot ord depth snap = Some (Inr out)"
    if "validOrder ord snap" "noShortTxn snap" "length (concat (snap_Traces snap)) \<le> depth"
    using ProcessSnapshot_returns[OF that(1,2) assms that(3)] .
  ultimately show ?thesis using passes by blast
qed

theorem C3_terminates_without_cycle_witness:
  "acyclic (parentRel exampleSnapshot)
   \<and> validOrder exampleOrder exampleSnapshot \<and> noShortTxn exampleSnapshot
   \<and> length (concat (snap_Traces exampleSnapshot)) \<le> exampleDepth
   \<and> (\<exists>out. ProcessSnapshot exampleOrder exampleDepth exampleSnapshot = Some (Inr out))"
  using C3_terminates_without_cycle[OF parentRel_example, of exampleOrder exampleDepth]
    parentRel_example validOrder_example noShortTxn_example example_depth
  by blast

section \<open>The upward pass\<close>

text \<open>The copies that the upward pass leaves in the output of a run that returns.\<close>

lemma upward_copies_of_run:
  assumes "ProcessSnapshot ord depth snap = Some (Inr out)"
  shows "\<exists>ix chs. buildIndex ord snap = Inr ix
    \<and> (\<forall>i<length (Spans out). \<forall>T\<in>set (Tags (Spans out ! i)).
          PropagateUp T \<and> \<not> CopiedFromChild T \<longrightarrow>
            chainFrom (spansMap ix) (map ParentSpanID (Spans out)) (ParentSpanID (Spans out ! i)) (chs i)
          \<and> distinct (chs i)
          \<and> (\<forall>j\<in>set (chs i). j < length (Spans out) \<and> upCopy T \<in> set (Tags (Spans out ! j))))
    \<and> (\<forall>j<length (Spans out).
          filter CopiedFromChild (Tags (Spans out ! j)) =
            concat (map (\<lambda>i. if j \<in> set (chs i)
                              then map upCopy (filter (\<lambda>T. PropagateUp T \<and> \<not> CopiedFromChild T)
                                                 (Tags (Spans out ! i)))
                              else [])
                     [0..<length (Spans out)]))
    \<and> (\<forall>T. CopiedFromChild (upCopy T) \<and> \<not> Inherit (upCopy T))"
proof -
  let ?O = "Spans out"
  let ?n = "length ?O"
  from ProcessSnapshot_parts[OF assms] obtain ix chs where
    ix: "buildIndex ord snap = Inr ix"
    and len: "?n = length (processedSpans ix)"
    and ch: "\<forall>i<?n. filter upSel (Tags (?O ! i)) \<noteq> [] \<longrightarrow>
          chainFrom (spansMap ix) (map ParentSpanID ?O) (ParentSpanID (?O ! i)) (chs i)"
    and cp: "\<forall>j<?n. filter CopiedFromChild (Tags (?O ! j))
            = copiesOver [0..<?n] upSel upCopy ?O chs j"
    by blast
  have sel: "upSel = (\<lambda>T. PropagateUp T \<and> \<not> CopiedFromChild T)"
    by (simp add: fun_eq_iff upSel_def)
  have ok: "\<forall>k p. spansMap ix k = Some p \<longrightarrow> p < ?n"
    using buildIndex_spansMap_range[OF ix] len by simp
  have dist: "distinct (chs i)" if "i \<in> set [0..<?n]" "filter upSel (Tags (?O ! i)) \<noteq> []" for i
    using ch that by (auto intro: chainFrom_distinct)
  have once: "copiesOver [0..<?n] upSel upCopy ?O chs j =
      concat (map (\<lambda>i. if j \<in> set (chs i) then map upCopy (filter upSel (Tags (?O ! i))) else [])
                [0..<?n])" for j
    using dist by (rule copiesOver_once)
  have b: "\<forall>j<?n. filter CopiedFromChild (Tags (?O ! j)) =
            concat (map (\<lambda>i. if j \<in> set (chs i)
                              then map upCopy (filter (\<lambda>T. PropagateUp T \<and> \<not> CopiedFromChild T)
                                                 (Tags (?O ! i)))
                              else [])
                     [0..<?n])"
    unfolding sel[symmetric] using cp once by simp
  have a: "\<forall>i<?n. \<forall>T\<in>set (Tags (?O ! i)).
          PropagateUp T \<and> \<not> CopiedFromChild T \<longrightarrow>
            chainFrom (spansMap ix) (map ParentSpanID ?O) (ParentSpanID (?O ! i)) (chs i)
          \<and> distinct (chs i)
          \<and> (\<forall>j\<in>set (chs i). j < ?n \<and> upCopy T \<in> set (Tags (?O ! j)))"
  proof (intro allI impI ballI)
    fix i T assume i: "i < ?n" and T: "T \<in> set (Tags (?O ! i))"
      and p: "PropagateUp T \<and> \<not> CopiedFromChild T"
    have Tsel: "T \<in> set (filter upSel (Tags (?O ! i)))" using T p by (simp add: upSel_def)
    have ne: "filter upSel (Tags (?O ! i)) \<noteq> []"
      using length_pos_if_in_set[OF Tsel] by auto
    have c: "chainFrom (spansMap ix) (map ParentSpanID ?O) (ParentSpanID (?O ! i)) (chs i)"
      using ch i ne by blast
    have d: "distinct (chs i)" using c by (rule chainFrom_distinct)
    have m: "j < ?n \<and> upCopy T \<in> set (Tags (?O ! j))" if j: "j \<in> set (chs i)" for j
    proof -
      have jn: "j < ?n" using chainFrom_bound[OF c ok] j by blast
      have "upCopy T \<in> set (concat (map (\<lambda>i. if j \<in> set (chs i)
               then map upCopy (filter upSel (Tags (?O ! i))) else []) [0..<?n]))"
        using i j Tsel by (auto intro!: bexI[of _ i])
      then have "upCopy T \<in> set (filter CopiedFromChild (Tags (?O ! j)))"
        using cp once jn by simp
      then show ?thesis using jn by simp
    qed
    from c d m
    show "chainFrom (spansMap ix) (map ParentSpanID ?O) (ParentSpanID (?O ! i)) (chs i)
          \<and> distinct (chs i)
          \<and> (\<forall>j\<in>set (chs i). j < ?n \<and> upCopy T \<in> set (Tags (?O ! j)))" by blast
  qed
  have c: "\<forall>T. CopiedFromChild (upCopy T) \<and> \<not> Inherit (upCopy T)" by (simp add: upCopy_def)
  from ix a b c show ?thesis by blast
qed

text \<open>
  C6. The claim speaks of every span with such a tag, after processing. On the snapshot
  of one span that names itself as its parent, the \<open>statement\<close> tag of the span has
  \<open>PropagateUp\<close> set and \<open>CopiedFromChild\<close> clear, and the parent id of the span is in the
  span index: the chain of its ancestors has no end, the upward walk for the tag does
  not return, and there is no output in which the ancestors carry one copy.
\<close>

theorem C6_endless_chain_counterexample:
  "(\<forall>depth. ProcessSnapshot cycleOrder depth cycleSnapshot = None)
   \<and> buildIndex cycleOrder cycleSnapshot = Inr cycleIndex
   \<and> PropagateUp (Tags (processedSpans cycleIndex ! 0) ! 0)
   \<and> \<not> CopiedFromChild (Tags (processedSpans cycleIndex ! 0) ! 0)
   \<and> spansMap cycleIndex (ParentSpanID (processedSpans cycleIndex ! 0)) = Some 0
   \<and> \<not> (\<exists>ch. chainFrom (spansMap cycleIndex) (map ParentSpanID (processedSpans cycleIndex))
              (ParentSpanID (processedSpans cycleIndex ! 0)) ch)
   \<and> propagateTagUpwards (Tags (processedSpans cycleIndex ! 0) ! 0) (processedSpans cycleIndex ! 0)
        (spansMap cycleIndex) (processedSpans cycleIndex) = None"
proof -
  let ?T = "processedSpans cycleIndex"
  have flags: "PropagateUp (Tags (?T ! 0) ! 0)" "\<not> CopiedFromChild (Tags (?T ! 0) ! 0)"
    and sp: "spansMap cycleIndex (ParentSpanID (?T ! 0)) = Some 0"
    and par: "map ParentSpanID ?T ! 0 = ParentSpanID (?T ! 0)"
    by (simp_all add: cycleIndex_def exampleTag_def)
  have none: "\<not> (\<exists>ch. chainFrom (spansMap cycleIndex) (map ParentSpanID ?T) (ParentSpanID (?T ! 0)) ch)"
  proof
    assume "\<exists>ch. chainFrom (spansMap cycleIndex) (map ParentSpanID ?T) (ParentSpanID (?T ! 0)) ch"
    then obtain ch where
      ch: "chainFrom (spansMap cycleIndex) (map ParentSpanID ?T) (ParentSpanID (?T ! 0)) ch" ..
    from ch sp obtain ch' where c1: "ch = 0 # ch'"
      and "chainFrom (spansMap cycleIndex) (map ParentSpanID ?T) (map ParentSpanID ?T ! 0) ch'"
      by (auto elim: chainFrom.cases)
    then have "chainFrom (spansMap cycleIndex) (map ParentSpanID ?T) (ParentSpanID (?T ! 0)) ch'"
      by (simp only: par)
    from chainFrom_det[OF ch this] c1 show False by simp
  qed
  have "upwardsLoop tag (ParentSpanID (?T ! 0)) (spansMap cycleIndex) ?T = None" for tag
    by (rule upwardsLoop_self_parent[where p = 0]) (simp_all add: cycleIndex_def)
  then have up: "propagateTagUpwards (Tags (?T ! 0) ! 0) (?T ! 0) (spansMap cycleIndex) ?T = None"
    by (simp add: propagateTagUpwards_def Let_def)
  from cycle_run cycle_index flags sp none up show ?thesis by (intro conjI allI)
qed

text \<open>
  C6, as the code has it. For every run of \<open>ProcessSnapshot\<close> that returns an output, let
  \<open>S\<close> be the span at position \<open>i\<close> and \<open>T\<close> a tag of \<open>S\<close> with \<open>PropagateUp\<close> set and
  \<open>CopiedFromChild\<close> clear. The chain \<open>chs i\<close> of the strict ancestors of \<open>S\<close> starts at the
  parent id of \<open>S\<close>, follows the span index built by the first loop and ends at the first
  parent id that the index does not have; no span is on it twice. Every span on the
  chain carries the copy of \<open>T\<close>, which has \<open>CopiedFromChild\<close> set and \<open>Inherit\<close> clear. The
  tags with \<open>CopiedFromChild\<close> set of an output span \<open>j\<close> are, in this order and with
  nothing else: for each position \<open>i\<close> whose chain has \<open>j\<close> on it, one copy of each such
  tag of the span at \<open>i\<close>. So each source tag gives one copy to each ancestor and none to
  any other span, wherever the spans stand in the snapshot. The run returns an output
  whenever the parent relation of the snapshot has no cycle, no \<open>lock_holder_txn\<close> value
  is shorter than 8 bytes, and the stack admits one nested call of
  \<open>propagateInheritTagDownwards\<close> for each span.
\<close>

theorem C6_upward_completeness:
  "(\<forall>out. ProcessSnapshot ord depth snap = Some (Inr out) \<longrightarrow>
      (\<exists>ix chs. buildIndex ord snap = Inr ix
          \<and> (\<forall>i<length (Spans out). \<forall>T\<in>set (Tags (Spans out ! i)).
                PropagateUp T \<and> \<not> CopiedFromChild T \<longrightarrow>
                  chainFrom (spansMap ix) (map ParentSpanID (Spans out)) (ParentSpanID (Spans out ! i)) (chs i)
                \<and> distinct (chs i)
                \<and> (\<forall>j\<in>set (chs i). j < length (Spans out) \<and> upCopy T \<in> set (Tags (Spans out ! j))))
          \<and> (\<forall>j<length (Spans out).
                filter CopiedFromChild (Tags (Spans out ! j)) =
                  concat (map (\<lambda>i. if j \<in> set (chs i)
                                    then map upCopy (filter (\<lambda>T. PropagateUp T \<and> \<not> CopiedFromChild T)
                                                       (Tags (Spans out ! i)))
                                    else [])
                           [0..<length (Spans out)]))
          \<and> (\<forall>T. CopiedFromChild (upCopy T) \<and> \<not> Inherit (upCopy T))))
   \<and> (validOrder ord snap \<and> noShortTxn snap \<and> acyclic (parentRel snap)
        \<and> length (concat (snap_Traces snap)) \<le> depth \<longrightarrow>
         (\<exists>out. ProcessSnapshot ord depth snap = Some (Inr out)))"
proof (intro conjI allI impI)
  fix out assume "ProcessSnapshot ord depth snap = Some (Inr out)"
  then show "\<exists>ix chs. buildIndex ord snap = Inr ix
    \<and> (\<forall>i<length (Spans out). \<forall>T\<in>set (Tags (Spans out ! i)).
          PropagateUp T \<and> \<not> CopiedFromChild T \<longrightarrow>
            chainFrom (spansMap ix) (map ParentSpanID (Spans out)) (ParentSpanID (Spans out ! i)) (chs i)
          \<and> distinct (chs i)
          \<and> (\<forall>j\<in>set (chs i). j < length (Spans out) \<and> upCopy T \<in> set (Tags (Spans out ! j))))
    \<and> (\<forall>j<length (Spans out).
          filter CopiedFromChild (Tags (Spans out ! j)) =
            concat (map (\<lambda>i. if j \<in> set (chs i)
                              then map upCopy (filter (\<lambda>T. PropagateUp T \<and> \<not> CopiedFromChild T)
                                                 (Tags (Spans out ! i)))
                              else [])
                     [0..<length (Spans out)]))
    \<and> (\<forall>T. CopiedFromChild (upCopy T) \<and> \<not> Inherit (upCopy T))"
    by (rule upward_copies_of_run)
next
  assume "validOrder ord snap \<and> noShortTxn snap \<and> acyclic (parentRel snap)
        \<and> length (concat (snap_Traces snap)) \<le> depth"
  then show "\<exists>out. ProcessSnapshot ord depth snap = Some (Inr out)"
    by (intro ProcessSnapshot_returns) simp_all
qed

theorem C6_upward_completeness_witness:
  "validOrder exampleOrder exampleSnapshot \<and> noShortTxn exampleSnapshot
   \<and> acyclic (parentRel exampleSnapshot)
   \<and> length (concat (snap_Traces exampleSnapshot)) \<le> exampleDepth
   \<and> (\<exists>out. ProcessSnapshot exampleOrder exampleDepth exampleSnapshot = Some (Inr out)
        \<and> PropagateUp (Tags (Spans out ! 1) ! 0) \<and> \<not> CopiedFromChild (Tags (Spans out ! 1) ! 0)
        \<and> (\<exists>ix ch. buildIndex exampleOrder exampleSnapshot = Inr ix
              \<and> chainFrom (spansMap ix) (map ParentSpanID (Spans out))
                  (ParentSpanID (Spans out ! 1)) ch
              \<and> ch \<noteq> []
              \<and> (\<forall>j\<in>set ch. upCopy (Tags (Spans out ! 1) ! 0) \<in> set (Tags (Spans out ! j)))))"
proof -
  note main = C6_upward_completeness[where ord = exampleOrder and depth = exampleDepth
      and snap = exampleSnapshot]
  from main[THEN conjunct2] validOrder_example noShortTxn_example parentRel_example example_depth
  obtain out where run: "ProcessSnapshot exampleOrder exampleDepth exampleSnapshot = Some (Inr out)"
    by blast
  then have out: "out = exampleOutput" using example_run by simp
  have i: "(1::nat) < length (Spans out)"
    and T: "Tags (Spans out ! 1) ! 0 \<in> set (Tags (Spans out ! 1))"
    and p: "PropagateUp (Tags (Spans out ! 1) ! 0) \<and> \<not> CopiedFromChild (Tags (Spans out ! 1) ! 0)"
    by (simp_all add: out exampleOutput_def exampleSpans_def exampleTag_def)
  from main[THEN conjunct1, rule_format, OF run] obtain ix chs where
    ix: "buildIndex exampleOrder exampleSnapshot = Inr ix"
    and a: "\<forall>i<length (Spans out). \<forall>T\<in>set (Tags (Spans out ! i)).
          PropagateUp T \<and> \<not> CopiedFromChild T \<longrightarrow>
            chainFrom (spansMap ix) (map ParentSpanID (Spans out))
              (ParentSpanID (Spans out ! i)) (chs i)
          \<and> distinct (chs i)
          \<and> (\<forall>j\<in>set (chs i). j < length (Spans out)
                \<and> upCopy T \<in> set (Tags (Spans out ! j)))"
    by blast
  from a i T p have c:
    "chainFrom (spansMap ix) (map ParentSpanID (Spans out)) (ParentSpanID (Spans out ! 1)) (chs 1)"
    and m: "\<forall>j\<in>set (chs 1). upCopy (Tags (Spans out ! 1) ! 0) \<in> set (Tags (Spans out ! j))"
    by blast+
  have "\<exists>ix'. buildIndex exampleOrder exampleSnapshot = Inr ix' \<and> spansMap ix' 1 = Some 0"
    by (simp add: example_defs buildIndex_def processSpan_def processTag_def findTxnState_def
        tagIndex_def hiddenTags_def zeroSpan_def Let_def)
  with ix have "spansMap ix (ParentSpanID (Spans out ! 1)) = Some 0"
    by (auto simp: out exampleOutput_def exampleSpans_def)
  with c have ne: "chs 1 \<noteq> []" by (auto elim: chainFrom.cases)
  from ix c ne m have "\<exists>ix ch. buildIndex exampleOrder exampleSnapshot = Inr ix
        \<and> chainFrom (spansMap ix) (map ParentSpanID (Spans out)) (ParentSpanID (Spans out ! 1)) ch
        \<and> ch \<noteq> []
        \<and> (\<forall>j\<in>set ch. upCopy (Tags (Spans out ! 1) ! 0) \<in> set (Tags (Spans out ! j)))"
    by (intro exI[of _ ix] exI[of _ "chs 1"] conjI)
  with run p validOrder_example noShortTxn_example parentRel_example example_depth
  show ?thesis by blast
qed

section \<open>The downward pass\<close>

text \<open>The copies that the downward pass leaves in the output of a run that returns.\<close>

lemma downward_copies_of_run:
  assumes "ProcessSnapshot ord depth snap = Some (Inr out)"
  shows "(\<forall>i<length (Spans out). \<forall>T\<in>set (Tags (Spans out ! i)).
            Inherit T \<and> \<not> Inherited T \<longrightarrow>
              (\<forall>j. descendantOf (Spans out) i j \<longrightarrow>
                 j < length (Spans out) \<and> inheritFlags T \<in> set (Tags (Spans out ! j))))
    \<and> (distinct (map rs_SpanID (concat (snap_Traces snap))) \<longrightarrow>
        (\<forall>j<length (Spans out).
          filter Inherited (Tags (Spans out ! j)) =
            concat (map (\<lambda>i. if descendantOf (Spans out) i j
                              then map inheritFlags (filter (\<lambda>T. Inherit T \<and> \<not> Inherited T)
                                                       (Tags (Spans out ! i)))
                              else [])
                     [0..<length (Spans out)])))
    \<and> (\<forall>T. Inherited (inheritFlags T) \<and> \<not> PropagateUp (inheritFlags T) \<and> Hidden (inheritFlags T))"
proof -
  let ?O = "Spans out"
  let ?n = "length ?O"
  let ?rs = "concat (snap_Traces snap)"
  from ProcessSnapshot_parts[OF assms(1)] obtain ix vss where
    ix: "buildIndex ord snap = Inr ix"
    and len: "?n = length (processedSpans ix)"
    and ids: "map SpanID ?O = map SpanID (processedSpans ix)"
    and par: "map ParentSpanID ?O = map ParentSpanID (processedSpans ix)"
    and vs: "\<forall>i<?n. filter downSel (Tags (?O ! i)) \<noteq> [] \<longrightarrow>
          dfsFrom (childrenMap ix) (map SpanID ?O)
            (childrenOf (childrenMap ix) (SpanID (?O ! i))) (vss i)"
    and cp: "\<forall>j<?n. filter Inherited (Tags (?O ! j))
            = copiesOver [0..<?n] downSel inheritFlags ?O vss j"
    by blast
  let ?C = "childrenMap ix"
  let ?R = "childRel ?C (map SpanID ?O)"
  have sel: "downSel = (\<lambda>T. Inherit T \<and> \<not> Inherited T)"
    by (simp add: fun_eq_iff downSel_def)
  have n: "?n = length ?rs" using len buildIndex_char(1)[OF ix] by simp
  have pj: "ParentSpanID (processedSpans ix ! j) = ParentSpanID (?O ! j)" if "j < ?n" for j
    using par that len by (metis nth_map)
  have kids: "\<forall>k. childrenOf ?C k = filter (\<lambda>j. ParentSpanID (?O ! j) = k) [0..<?n]"
  proof
    fix k
    have "filter (\<lambda>j. ParentSpanID (processedSpans ix ! j) = k) [0..<?n]
        = filter (\<lambda>j. ParentSpanID (?O ! j) = k) [0..<?n]"
      by (rule filter_cong) (auto simp: pj)
    then show "childrenOf ?C k = filter (\<lambda>j. ParentSpanID (?O ! j) = k) [0..<?n]"
      using buildIndex_children[OF ix, of k] len by simp
  qed
  have kb: "\<forall>k. \<forall>c\<in>set (childrenOf ?C k). c < length (map SpanID ?O)" by (simp add: kids)
  have kd: "\<forall>k. distinct (childrenOf ?C k)" by (simp add: kids)
  have dfs: "dfsFrom ?C (map SpanID ?O) (childrenOf ?C (map SpanID ?O ! i)) (vss i)"
    if "i < ?n" "filter downSel (Tags (?O ! i)) \<noteq> []" for i
    using vs that by simp
  have visit: "set (vss i) = {j. descendantOf ?O i j}"
    if i: "i < ?n" and ne: "filter downSel (Tags (?O ! i)) \<noteq> []" for i
  proof -
    from dfsFrom_children_visits[OF dfs[OF i ne] _ kb] i
    have "set (vss i) = {j. (i, j) \<in> ?R\<^sup>+}" by simp
    then show ?thesis
      by (simp add: descendantOf_trancl[OF i] childRel_table[OF kids])
  qed
  have a: "\<forall>i<?n. \<forall>T\<in>set (Tags (?O ! i)).
            Inherit T \<and> \<not> Inherited T \<longrightarrow>
              (\<forall>j. descendantOf ?O i j \<longrightarrow> j < ?n \<and> inheritFlags T \<in> set (Tags (?O ! j)))"
  proof (intro allI impI ballI)
    fix i T j assume i: "i < ?n" and T: "T \<in> set (Tags (?O ! i))"
      and p: "Inherit T \<and> \<not> Inherited T" and d: "descendantOf ?O i j"
    have Tsel: "T \<in> set (filter downSel (Tags (?O ! i)))" using T p by (simp add: downSel_def)
    have ne: "filter downSel (Tags (?O ! i)) \<noteq> []"
      using length_pos_if_in_set[OF Tsel] by auto
    have jn: "j < ?n" using d by (rule descendantOf_bound)
    have "j \<in> set (vss i)" using visit[OF i ne] d by simp
    with Tsel have "inheritFlags T \<in> set (copiesOver [0..<?n] downSel inheritFlags ?O vss j)"
      by (intro copiesOver_member) (use i in simp_all)
    then have "inheritFlags T \<in> set (filter Inherited (Tags (?O ! j)))"
      using cp jn by simp
    with jn show "j < ?n \<and> inheritFlags T \<in> set (Tags (?O ! j))" by simp
  qed
  have b: "\<forall>j<?n. filter Inherited (Tags (?O ! j)) =
            concat (map (\<lambda>i. if descendantOf ?O i j
                              then map inheritFlags (filter (\<lambda>T. Inherit T \<and> \<not> Inherited T)
                                                       (Tags (?O ! i)))
                              else [])
                     [0..<?n])"
    if uniq: "distinct (map rs_SpanID ?rs)"
  proof -
    have "map SpanID (processedSpans ix) = map rs_SpanID ?rs"
      using buildIndex_fields(1)[OF ix] len n by (auto intro!: nth_equalityI)
    then have dist: "distinct (map SpanID ?O)" using uniq ids by simp
    have sv: "single_valued (?R\<inverse>)" using kids dist by (rule childRel_single_valued)
    have dv: "distinct (vss i)"
      if i: "i \<in> set [0..<?n]" and ne: "filter downSel (Tags (?O ! i)) \<noteq> []" for i
    proof -
      have "i < ?n" using i by simp
      from dfsFrom_children_distinct(1)[OF dfs[OF this ne] _ kb kd sv] this show ?thesis by simp
    qed
    have once: "copiesOver [0..<?n] downSel inheritFlags ?O vss j =
        concat (map (\<lambda>i. if j \<in> set (vss i) then map inheritFlags (filter downSel (Tags (?O ! i))) else [])
                  [0..<?n])" for j
      using dv by (rule copiesOver_once)
    have branch: "(if j \<in> set (vss i) then map inheritFlags (filter downSel (Tags (?O ! i))) else [])
        = (if descendantOf ?O i j then map inheritFlags (filter downSel (Tags (?O ! i))) else [])"
      if "i < ?n" for i j
    proof (cases "filter downSel (Tags (?O ! i)) = []")
      case True
      then show ?thesis by simp
    next
      case False
      from visit[OF that False] show ?thesis by simp
    qed
    have chr: "filter Inherited (Tags (?O ! j)) =
        concat (map (\<lambda>i. if descendantOf ?O i j
                          then map inheritFlags (filter downSel (Tags (?O ! i))) else []) [0..<?n])"
      if j: "j < ?n" for j
    proof -
      have "filter Inherited (Tags (?O ! j)) = copiesOver [0..<?n] downSel inheritFlags ?O vss j"
        using cp j by blast
      also have "\<dots> = concat (map (\<lambda>i. if j \<in> set (vss i)
                    then map inheritFlags (filter downSel (Tags (?O ! i))) else []) [0..<?n])"
        by (rule once)
      also have "\<dots> = concat (map (\<lambda>i. if descendantOf ?O i j
                    then map inheritFlags (filter downSel (Tags (?O ! i))) else []) [0..<?n])"
        by (rule arg_cong[where f = concat], rule map_cong) (auto simp: branch)
      finally show ?thesis .
    qed
    show ?thesis unfolding sel[symmetric] using chr by simp
  qed
  have c: "\<forall>T. Inherited (inheritFlags T) \<and> \<not> PropagateUp (inheritFlags T) \<and> Hidden (inheritFlags T)"
    by (simp add: inheritFlags_def)
  from a b c show ?thesis by blast
qed

text \<open>
  C7. The claim: no descendant receives two copies of a tag from the downward pass. On
  a snapshot in which two children of a query span share the span id 2, the span whose
  parent id is 2 is listed once as a child of that id and is visited from each of the
  two: in the output it carries the copy of the \<open>statement\<close> tag of the query span twice.
\<close>

theorem C7_two_copies_counterexample:
  "ProcessSnapshot dupOrder exampleDepth dupSnapshot = Some (Inr dupOutput)
   \<and> Inherit (Tags (Spans dupOutput ! 0) ! 0) \<and> \<not> Inherited (Tags (Spans dupOutput ! 0) ! 0)
   \<and> descendantOf (Spans dupOutput) 0 3
   \<and> Tags (Spans dupOutput ! 3)
        = [inheritFlags (Tags (Spans dupOutput ! 0) ! 0), inheritFlags (Tags (Spans dupOutput ! 0) ! 0)]
   \<and> map rs_SpanID (concat (snap_Traces dupSnapshot)) = [1, 2, 2, 3]"
proof -
  have d1: "descendantOf (Spans dupOutput) 0 1"
    by (rule desc_child) (simp_all add: dupOutput_def)
  have d: "descendantOf (Spans dupOutput) 0 3"
    by (rule desc_step[OF d1]) (simp_all add: dupOutput_def)
  have "Inherit (Tags (Spans dupOutput ! 0) ! 0)" "\<not> Inherited (Tags (Spans dupOutput ! 0) ! 0)"
    "Tags (Spans dupOutput ! 3)
        = [inheritFlags (Tags (Spans dupOutput ! 0) ! 0), inheritFlags (Tags (Spans dupOutput ! 0) ! 0)]"
    "map rs_SpanID (concat (snap_Traces dupSnapshot)) = [1, 2, 2, 3]"
    by (simp_all add: dupOutput_def dupInherited_def dupSnapshot_def mkSpan_def exampleTag_def
        inheritFlags_def)
  with dup_run d show ?thesis by (intro conjI)
qed

text \<open>
  C7, as the code has it. For every run of \<open>ProcessSnapshot\<close> that returns an output, let
  \<open>S\<close> be the span at position \<open>i\<close> and \<open>T\<close> a tag of \<open>S\<close> with \<open>Inherit\<close> set and \<open>Inherited\<close>
  clear. Every transitive descendant of \<open>S\<close>, at any depth, carries the copy of \<open>T\<close>, which
  has \<open>Inherited\<close> set, \<open>PropagateUp\<close> clear and \<open>Hidden\<close> set. When the span ids of the
  snapshot are unique, the tags with \<open>Inherited\<close> set of an output span \<open>j\<close> are, in this
  order and with nothing else: for each position \<open>i\<close> of which \<open>j\<close> is a descendant, one
  copy of each such tag of the span at \<open>i\<close>; so then no descendant receives two copies
  from one source tag. The run returns an output whenever the parent relation of the
  snapshot has no cycle, no \<open>lock_holder_txn\<close> value is shorter than 8 bytes, and the
  stack admits one nested call of \<open>propagateInheritTagDownwards\<close> for each span.
\<close>

theorem C7_downward_completeness:
  "(\<forall>out. ProcessSnapshot ord depth snap = Some (Inr out) \<longrightarrow>
     ((\<forall>i<length (Spans out). \<forall>T\<in>set (Tags (Spans out ! i)).
                 Inherit T \<and> \<not> Inherited T \<longrightarrow>
                   (\<forall>j. descendantOf (Spans out) i j \<longrightarrow>
                      j < length (Spans out) \<and> inheritFlags T \<in> set (Tags (Spans out ! j))))
         \<and> (distinct (map rs_SpanID (concat (snap_Traces snap))) \<longrightarrow>
             (\<forall>j<length (Spans out).
               filter Inherited (Tags (Spans out ! j)) =
                 concat (map (\<lambda>i. if descendantOf (Spans out) i j
                                   then map inheritFlags (filter (\<lambda>T. Inherit T \<and> \<not> Inherited T)
                                                            (Tags (Spans out ! i)))
                                   else [])
                          [0..<length (Spans out)])))
         \<and> (\<forall>T. Inherited (inheritFlags T) \<and> \<not> PropagateUp (inheritFlags T) \<and> Hidden (inheritFlags T))))
   \<and> (validOrder ord snap \<and> noShortTxn snap \<and> acyclic (parentRel snap)
        \<and> length (concat (snap_Traces snap)) \<le> depth \<longrightarrow>
         (\<exists>out. ProcessSnapshot ord depth snap = Some (Inr out)))"
proof (intro conjI allI)
  fix out
  show "ProcessSnapshot ord depth snap = Some (Inr out) \<longrightarrow>
     ((\<forall>i<length (Spans out). \<forall>T\<in>set (Tags (Spans out ! i)).
                 Inherit T \<and> \<not> Inherited T \<longrightarrow>
                   (\<forall>j. descendantOf (Spans out) i j \<longrightarrow>
                      j < length (Spans out) \<and> inheritFlags T \<in> set (Tags (Spans out ! j))))
         \<and> (distinct (map rs_SpanID (concat (snap_Traces snap))) \<longrightarrow>
             (\<forall>j<length (Spans out).
               filter Inherited (Tags (Spans out ! j)) =
                 concat (map (\<lambda>i. if descendantOf (Spans out) i j
                                   then map inheritFlags (filter (\<lambda>T. Inherit T \<and> \<not> Inherited T)
                                                            (Tags (Spans out ! i)))
                                   else [])
                          [0..<length (Spans out)])))
         \<and> (\<forall>T. Inherited (inheritFlags T) \<and> \<not> PropagateUp (inheritFlags T) \<and> Hidden (inheritFlags T)))"
    by (rule impI) (rule downward_copies_of_run)
next
  show "validOrder ord snap \<and> noShortTxn snap \<and> acyclic (parentRel snap)
        \<and> length (concat (snap_Traces snap)) \<le> depth \<longrightarrow>
         (\<exists>out. ProcessSnapshot ord depth snap = Some (Inr out))"
    by (rule impI, rule ProcessSnapshot_returns) simp_all
qed

theorem C7_downward_completeness_witness:
  "validOrder exampleOrder exampleSnapshot \<and> noShortTxn exampleSnapshot
   \<and> acyclic (parentRel exampleSnapshot)
   \<and> length (concat (snap_Traces exampleSnapshot)) \<le> exampleDepth
   \<and> distinct (map rs_SpanID (concat (snap_Traces exampleSnapshot)))
   \<and> (\<exists>out. ProcessSnapshot exampleOrder exampleDepth exampleSnapshot = Some (Inr out)
        \<and> Inherit (Tags (Spans out ! 1) ! 0) \<and> \<not> Inherited (Tags (Spans out ! 1) ! 0)
        \<and> descendantOf (Spans out) 1 2
        \<and> inheritFlags (Tags (Spans out ! 1) ! 0) \<in> set (Tags (Spans out ! 2))
        \<and> filter Inherited (Tags (Spans out ! 2)) =
            concat (map (\<lambda>i. if descendantOf (Spans out) i 2
                              then map inheritFlags (filter (\<lambda>T. Inherit T \<and> \<not> Inherited T)
                                                       (Tags (Spans out ! i)))
                              else [])
                     [0..<length (Spans out)]))"
proof -
  note main = C7_downward_completeness[where ord = exampleOrder and depth = exampleDepth
      and snap = exampleSnapshot]
  from main[THEN conjunct2] validOrder_example noShortTxn_example parentRel_example example_depth
  obtain out where run: "ProcessSnapshot exampleOrder exampleDepth exampleSnapshot = Some (Inr out)"
    by blast
  then have out: "out = exampleOutput" using example_run by simp
  have h: "distinct (map rs_SpanID (concat (snap_Traces exampleSnapshot)))"
    by (simp add: exampleSnapshot_def mkSpan_def)
  have i: "(1::nat) < length (Spans out)" "(2::nat) < length (Spans out)"
    and T: "Tags (Spans out ! 1) ! 0 \<in> set (Tags (Spans out ! 1))"
    and p: "Inherit (Tags (Spans out ! 1) ! 0) \<and> \<not> Inherited (Tags (Spans out ! 1) ! 0)"
    by (simp_all add: out exampleOutput_def exampleSpans_def exampleTag_def)
  have d: "descendantOf (Spans out) 1 2"
    by (rule desc_child) (simp_all add: out exampleOutput_def exampleSpans_def)
  note part = main[THEN conjunct1, rule_format, OF run]
  from part[THEN conjunct1] i T p d
  have m: "inheritFlags (Tags (Spans out ! 1) ! 0) \<in> set (Tags (Spans out ! 2))"
    by blast
  from part[THEN conjunct2, THEN conjunct1] h i(2)
  have e: "filter Inherited (Tags (Spans out ! 2)) =
       concat (map (\<lambda>i. if descendantOf (Spans out) i 2
                         then map inheritFlags (filter (\<lambda>T. Inherit T \<and> \<not> Inherited T)
                                                  (Tags (Spans out ! i)))
                         else [])
                [0..<length (Spans out)])"
    by blast
  from run p d m e have "\<exists>out. ProcessSnapshot exampleOrder exampleDepth exampleSnapshot = Some (Inr out)
        \<and> Inherit (Tags (Spans out ! 1) ! 0) \<and> \<not> Inherited (Tags (Spans out ! 1) ! 0)
        \<and> descendantOf (Spans out) 1 2
        \<and> inheritFlags (Tags (Spans out ! 1) ! 0) \<in> set (Tags (Spans out ! 2))
        \<and> filter Inherited (Tags (Spans out ! 2)) =
            concat (map (\<lambda>i. if descendantOf (Spans out) i 2
                              then map inheritFlags (filter (\<lambda>T. Inherit T \<and> \<not> Inherited T)
                                                       (Tags (Spans out ! i)))
                              else [])
                     [0..<length (Spans out)])"
    by (intro exI[of _ out] conjI) simp_all
  with validOrder_example noShortTxn_example parentRel_example example_depth h
  show ?thesis by (intro conjI)
qed

end
